theory Spec2Isabelle
  imports Main "HOL-Library.Multiset"
begin

section \<open>Strings of the JavaScript runtime\<close>

text \<open>
  A JavaScript string is a sequence of UTF-16 code units; \<open>text.length\<close> and \<open>text[i]\<close>
  count code units. Text content and attribute values are therefore lists of code units.
  Element and attribute names and namespace URIs are only ever compared with ASCII
  constants, and are kept as \<open>string\<close>.
\<close>

type_synonym jsstring = "nat list"

definition js :: "string \<Rightarrow> jsstring" where
  "js s = map of_char s"

text \<open>
  The characters matched by the regular expression class \<open>\s\<close>, which are also the ones
  stripped by \<open>String.prototype.trim\<close> and skipped by \<open>parseInt\<close>: tab, line feed,
  vertical tab, form feed, carriage return, space, U+00A0, U+1680, U+2000..U+200A, U+2028,
  U+2029, U+202F, U+205F, U+3000 and U+FEFF.
\<close>

definition isSpace :: "nat \<Rightarrow> bool" where
  "isSpace c \<longleftrightarrow>
     (9 \<le> c \<and> c \<le> 13) \<or> c = 32 \<or> c = 160 \<or> c = 5760 \<or> (8192 \<le> c \<and> c \<le> 8202) \<or>
     c = 8232 \<or> c = 8233 \<or> c = 8239 \<or> c = 8287 \<or> c = 12288 \<or> c = 65279"

definition trim :: "jsstring \<Rightarrow> jsstring" where
  "trim s = rev (dropWhile isSpace (rev (dropWhile isSpace s)))"

text \<open>\<open>text.replace(/\s+/g, " ")\<close>: every maximal run of whitespace becomes one space.\<close>

function replaceWhitespaceRuns :: "jsstring \<Rightarrow> jsstring" where
  "replaceWhitespaceRuns [] = []"
| "replaceWhitespaceRuns (c # cs) =
     (if isSpace c then 32 # replaceWhitespaceRuns (dropWhile isSpace cs)
      else c # replaceWhitespaceRuns cs)"
  by pat_completeness auto
termination
  by (relation "measure length") (auto simp: length_dropWhile_le less_Suc_eq_le)

definition cleanAnchorText :: "jsstring \<Rightarrow> jsstring" where
  "cleanAnchorText text = trim (replaceWhitespaceRuns text)"

text \<open>\<open>xs[i] ?? null\<close>: an index past the end reads \<open>undefined\<close>.\<close>

definition nthOrNull :: "'a list \<Rightarrow> nat \<Rightarrow> 'a option" where
  "nthOrNull xs i = (if i < length xs then Some (xs ! i) else None)"

section \<open>Numbers of the JavaScript runtime\<close>

text \<open>
  Every number of the source is an IEEE 754 double. The numbers that the merge computes
  with are integers or not finite, so a finite number is modelled by the integer it
  denotes and arithmetic rounds its exact result to the nearest double, ties to the even
  significand. A non-negative integer below \<open>2^53\<close> is a double; above, the significand
  keeps 53 bits: \<open>shiftOf n\<close> is the number of low bits that are rounded away. A rounded
  magnitude of \<open>2^1024\<close> or more is \<open>Infinity\<close>.
\<close>

function shiftOf :: "nat \<Rightarrow> nat" where
  "shiftOf n = (if n < 2 ^ 53 then 0 else Suc (shiftOf (n div 2)))"
  by pat_completeness auto
termination
  by (relation "measure id") auto

declare shiftOf.simps [simp del]

definition roundMagnitude :: "nat \<Rightarrow> nat" where
  "roundMagnitude n =
     (let k = shiftOf n; q = n div 2 ^ k; r = n mod 2 ^ k
      in if 2 ^ k < 2 * r \<or> (2 * r = 2 ^ k \<and> odd q) then (q + 1) * 2 ^ k else q * 2 ^ k)"

definition roundToDouble :: "int \<Rightarrow> int" where
  "roundToDouble n =
     (if n < 0 then - int (roundMagnitude (nat (- n))) else int (roundMagnitude (nat n)))"

definition isFiniteDouble :: "int \<Rightarrow> bool" where
  "isFiniteDouble n \<longleftrightarrow> \<bar>n\<bar> < 2 ^ 1024"

text \<open>\<open>n + 1\<close> and \<open>n++\<close> on a finite integral double: the exact sum, rounded. The sum of a
  finite double and one is never infinite.\<close>

definition plusOne :: "int \<Rightarrow> int" where
  "plusOne n = roundToDouble (n + 1)"

text \<open>The decimal digits of a natural number.\<close>

function digitsOf :: "nat \<Rightarrow> jsstring" where
  "digitsOf n = (if n < 10 then [48 + n] else digitsOf (n div 10) @ [48 + n mod 10])"
  by pat_completeness auto
termination
  by (relation "measure id") auto

declare digitsOf.simps [simp del]

text \<open>
  \<open>String(n)\<close> (\<open>Number::toString\<close>) for an integral double. The digits written are the
  shortest digit string \<open>s\<close> (\<open>k\<close> digits) for which some \<open>s * 10^(n - k)\<close> rounds to the
  number, the closest one when several have this length. When \<open>n \<le> 21\<close> they are followed
  by \<open>n - k\<close> zeros; otherwise the result is the exponent notation \<open>d.ddde+x\<close>. Below \<open>2^53\<close>
  every integer is a double, so that the digits and zeros written are the decimal digits
  of the integer itself. A negative number has a minus sign in front.
\<close>

definition expCandidates :: "nat \<Rightarrow> nat \<Rightarrow> (nat \<times> nat) list" where
  "expCandidates x k =
     [(n, s). n \<leftarrow> [length (digitsOf x), Suc (length (digitsOf x))],
              s \<leftarrow> [x div 10 ^ (n - k), x div 10 ^ (n - k) + 1],
              k \<le> n \<and> 10 ^ (k - 1) \<le> s \<and> s < 10 ^ k \<and> roundMagnitude (s * 10 ^ (n - k)) = x]"

definition distanceOf :: "nat \<Rightarrow> nat \<Rightarrow> nat \<times> nat \<Rightarrow> nat" where
  "distanceOf x k c =
     (case c of (n, s) \<Rightarrow> nat \<bar>int (s * 10 ^ (n - k)) - int x\<bar>)"

definition closestCandidate :: "nat \<Rightarrow> nat \<Rightarrow> (nat \<times> nat) list \<Rightarrow> (nat \<times> nat) option" where
  "closestCandidate x k cs =
     foldl (\<lambda>best c. case best of
                        None \<Rightarrow> Some c
                      | Some b \<Rightarrow> if distanceOf x k c < distanceOf x k b then Some c else Some b)
       None cs"

definition shortestDigits :: "nat \<Rightarrow> (nat \<times> nat \<times> nat) option" where
  "shortestDigits x =
     (case find (\<lambda>k. expCandidates x k \<noteq> []) [1 ..< Suc (length (digitsOf x))] of
        None \<Rightarrow> None
      | Some k \<Rightarrow>
          (case closestCandidate x k (expCandidates x k) of
             None \<Rightarrow> None
           | Some (n, s) \<Rightarrow> Some (k, n, s)))"

definition numberString :: "nat \<Rightarrow> jsstring" where
  "numberString x =
     (if x < 2 ^ 53 then digitsOf x
      else case shortestDigits x of
             None \<Rightarrow> digitsOf x
           | Some (k, n, s) \<Rightarrow>
               (let ds = digitsOf s
                in if n \<le> 21 then ds @ replicate (n - k) 48
                   else take 1 ds @ (if k = 1 then [] else 46 # drop 1 ds) @ [101, 43] @
                        digitsOf (n - 1)))"

definition String_of_int :: "int \<Rightarrow> jsstring" where
  "String_of_int n = (if n < 0 then 45 # numberString (nat (- n)) else numberString (nat n))"

definition isDigit :: "nat \<Rightarrow> bool" where
  "isDigit c \<longleftrightarrow> 48 \<le> c \<and> c \<le> 57"

definition digitsValue :: "jsstring \<Rightarrow> nat" where
  "digitsValue ds = foldl (\<lambda>a d. 10 * a + (d - 48)) 0 ds"

text \<open>
  The integer that a string denotes when read as \<open>parseInt\<close> reads it: leading whitespace
  is skipped, one sign is read, then the longest run of decimal digits; \<open>None\<close> when there
  is no digit. This is the mathematical value, before any rounding.
\<close>

definition decimalValue :: "jsstring \<Rightarrow> int option" where
  "decimalValue s =
     (let t = dropWhile isSpace s;
          neg = (case t of [] \<Rightarrow> False | c # _ \<Rightarrow> c = 45);
          u = (case t of [] \<Rightarrow> [] | c # r \<Rightarrow> if c = 45 \<or> c = 43 then r else t);
          ds = takeWhile isDigit u
      in if ds = [] then None
         else Some (if neg then - int (digitsValue ds) else int (digitsValue ds)))"

text \<open>
  \<open>Number.parseInt(s, 10)\<close>: the value read as above, rounded to a double. With no digit
  the result is \<open>NaN\<close>, and a digit string of magnitude \<open>2^1024\<close> or more after rounding gives
  \<open>Infinity\<close>. Every caller tests the result with \<open>Number.isFinite\<close> and drops both, so
  both are \<open>None\<close> here and \<open>Some n\<close> is a finite number. (For more than 20 significant
  digits the language allows an implementation to read the digits after the 20th as
  zeros; the value modelled is that of an implementation which reads all of them.)
\<close>

definition parseInt :: "jsstring \<Rightarrow> int option" where
  "parseInt s =
     (case decimalValue s of
        None \<Rightarrow> None
      | Some v \<Rightarrow> if isFiniteDouble (roundToDouble v) then Some (roundToDouble v) else None)"

section \<open>The XML object model\<close>

text \<open>
  A node is an element (namespace URI, prefix, local name, attributes, children), a text
  node, or any other node (comment, processing instruction). The empty string stands for
  a null namespace or prefix. A document is given by its document element.
\<close>

datatype attr = Attr (attrNamespace: string) (attrPrefix: string) (attrLocal: string)
  (attrValue: jsstring)

datatype node =
    Element string string string "attr list" "node list"
  | Text jsstring
  | Misc

definition qualifiedName :: "string \<Rightarrow> string \<Rightarrow> string" where
  "qualifiedName pre loc = (if pre = [] then loc else pre @ '':'' @ loc)"

definition W_NS :: string where
  "W_NS = ''http://schemas.openxmlformats.org/wordprocessingml/2006/main''"



definition XML_NS :: string where
  "XML_NS = ''http://www.w3.org/XML/1998/namespace''"

fun isElement :: "node \<Rightarrow> bool" where
  "isElement (Element _ _ _ _ _) = True"
| "isElement _ = False"

fun namespaceURI :: "node \<Rightarrow> string" where
  "namespaceURI (Element ns _ _ _ _) = ns"
| "namespaceURI _ = []"

fun localName :: "node \<Rightarrow> string" where
  "localName (Element _ _ l _ _) = l"
| "localName _ = []"


fun attributes :: "node \<Rightarrow> attr list" where
  "attributes (Element _ _ _ a _) = a"
| "attributes _ = []"

fun childNodes :: "node \<Rightarrow> node list" where
  "childNodes (Element _ _ _ _ cs) = cs"
| "childNodes _ = []"

fun setChildNodes :: "node \<Rightarrow> node list \<Rightarrow> node" where
  "setChildNodes (Element ns p l a _) cs = Element ns p l a cs"
| "setChildNodes n _ = n"

text \<open>\<open>el.getAttribute(name)\<close> and \<open>el.getAttributeNS(ns, local)\<close>; \<open>None\<close> is \<open>null\<close>.\<close>

definition getAttribute :: "node \<Rightarrow> string \<Rightarrow> jsstring option" where
  "getAttribute el name =
     map_option attrValue
       (find (\<lambda>a. qualifiedName (attrPrefix a) (attrLocal a) = name) (attributes el))"

definition getAttributeNS :: "node \<Rightarrow> string \<Rightarrow> string \<Rightarrow> jsstring option" where
  "getAttributeNS el ns loc =
     map_option attrValue
       (find (\<lambda>a. attrNamespace a = ns \<and> attrLocal a = loc) (attributes el))"

text \<open>The elements of a subtree in document order, the root first.\<close>

fun subtreeElements :: "node \<Rightarrow> node list" where
  "subtreeElements (Element ns p l a cs) =
     Element ns p l a cs # concat (map subtreeElements cs)"
| "subtreeElements (Text _) = []"
| "subtreeElements Misc = []"

text \<open>
  The element descendants of a node, the node itself excluded: what a \<open>TreeWalker\<close> with
  \<open>SHOW_ELEMENT\<close> visits through \<open>nextNode()\<close>, and what \<open>el.getElementsByTagNameNS\<close>
  searches.
\<close>

definition descendantElements :: "node \<Rightarrow> node list" where
  "descendantElements n = concat (map subtreeElements (childNodes n))"

fun textContent :: "node \<Rightarrow> jsstring" where
  "textContent (Element _ _ _ _ cs) = concat (map textContent cs)"
| "textContent (Text s) = s"
| "textContent Misc = []"


definition getElementsByTagNameNS :: "node \<Rightarrow> string \<Rightarrow> string \<Rightarrow> node list" where
  "getElementsByTagNameNS doc ns loc =
     filter (\<lambda>e. namespaceURI e = ns \<and> localName e = loc) (subtreeElements doc)"

definition elementGetElementsByTagNameNS :: "node \<Rightarrow> string \<Rightarrow> string \<Rightarrow> node list" where
  "elementGetElementsByTagNameNS el ns loc =
     filter (\<lambda>e. namespaceURI e = ns \<and> localName e = loc) (descendantElements el)"

section \<open>Paragraph text\<close>

definition textContribution :: "node \<Rightarrow> jsstring" where
  "textContribution el =
     (if namespaceURI el \<noteq> W_NS then []
      else if localName el = ''t'' then textContent el
      else if localName el = ''tab'' then [9]
      else if localName el = ''br'' \<or> localName el = ''cr'' then [10]
      else [])"

definition getParagraphText :: "node \<Rightarrow> jsstring" where
  "getParagraphText paragraph = concat (map textContribution (descendantElements paragraph))"

section \<open>Anchor candidates and insertion\<close>

definition isAnchorCandidate :: "node \<Rightarrow> bool" where
  "isAnchorCandidate el \<longleftrightarrow>
     isElement el \<and>
     (if namespaceURI el \<noteq> W_NS then False
      else if localName el = ''pPr'' then False
      else if localName el = ''commentRangeStart'' then False
      else if localName el = ''commentRangeEnd'' then False
      else if localName el = ''r'' \<and>
              length (elementGetElementsByTagNameNS el W_NS ''commentReference'') > 0
           then False
      else True)"

definition getDirectChildAnchorCandidates :: "node \<Rightarrow> node list" where
  "getDirectChildAnchorCandidates paragraph = filter isAnchorCandidate (childNodes paragraph)"

text \<open>
  The source holds a candidate by reference; the model holds it by its position among
  the paragraph's child nodes. \<open>candidatePositions\<close> lists, for every candidate in order,
  that position.
\<close>

definition candidatePositions :: "node \<Rightarrow> nat list" where
  "candidatePositions paragraph =
     filter (\<lambda>i. isAnchorCandidate (childNodes paragraph ! i))
       [0 ..< length (childNodes paragraph)]"

definition contributionLength :: "node \<Rightarrow> nat" where
  "contributionLength el =
     (if namespaceURI el \<noteq> W_NS then 0
      else if localName el = ''t'' then length (textContent el)
      else if localName el = ''tab'' \<or> localName el = ''br'' \<or> localName el = ''cr'' then 1
      else 0)"

definition getChildTextLength :: "node \<Rightarrow> nat" where
  "getChildTextLength n = sum_list (map contributionLength (descendantElements n))"

text \<open>The loop of \<open>findBestAnchorCandidateIndexForOffset\<close>, from index \<open>i\<close> with the
  running \<open>cursor\<close>, over the candidates not yet visited.\<close>

fun anchorWalk :: "node list \<Rightarrow> nat \<Rightarrow> nat \<Rightarrow> nat \<Rightarrow> nat option" where
  "anchorWalk [] offset i cursor = None"
| "anchorWalk (c # cs) offset i cursor =
     (let nodeLen = getChildTextLength c
      in if offset < cursor + max 1 nodeLen then Some i
         else anchorWalk cs offset (i + 1) (cursor + max 1 nodeLen))"

definition findBestAnchorCandidateIndexForOffset :: "node \<Rightarrow> nat \<Rightarrow> nat" where
  "findBestAnchorCandidateIndexForOffset paragraph offset =
     (let candidates = getDirectChildAnchorCandidates paragraph
      in if length candidates = 0 then 0
         else (case anchorWalk candidates offset 0 0 of
                 Some i \<Rightarrow> i
               | None \<Rightarrow> length candidates - 1))"

definition createSpaceRun :: node where
  "createSpaceRun =
     Element W_NS ''w'' ''r'' []
       [Element W_NS ''w'' ''t'' [Attr XML_NS ''xml'' ''space'' (js ''preserve'')] [Text [32]]]"

definition createCommentReferenceRun :: "int \<Rightarrow> node" where
  "createCommentReferenceRun commentId =
     Element W_NS ''w'' ''r'' []
       [Element W_NS ''w'' ''rPr'' []
          [Element W_NS ''w'' ''rStyle'' [Attr W_NS ''w'' ''val'' (js ''CommentReference'')] []],
        Element W_NS ''w'' ''commentReference''
          [Attr W_NS ''w'' ''id'' (String_of_int commentId)] []]"

definition createRangeStart :: "int \<Rightarrow> node" where
  "createRangeStart commentId =
     Element W_NS ''w'' ''commentRangeStart'' [Attr W_NS ''w'' ''id'' (String_of_int commentId)] []"

definition createRangeEnd :: "int \<Rightarrow> node" where
  "createRangeEnd commentId =
     Element W_NS ''w'' ''commentRangeEnd'' [Attr W_NS ''w'' ''id'' (String_of_int commentId)] []"

text \<open>
  Child-list operations, on positions. \<open>parent.insertBefore(n, ref)\<close> throws
  \<open>NotFoundError\<close> when \<open>ref\<close> is not a child of \<open>parent\<close>: here, when the position is
  not one of the list. After it the node that was at position \<open>r\<close> is at \<open>r + 1\<close>.
\<close>

datatype domError = NotFoundError

definition insertBefore :: "node list \<Rightarrow> node \<Rightarrow> nat \<Rightarrow> domError + node list" where
  "insertBefore cs n r = (if r < length cs then Inr (take r cs @ n # drop r cs) else Inl NotFoundError)"

definition appendChild :: "node list \<Rightarrow> node \<Rightarrow> node list" where
  "appendChild cs n = cs @ [n]"

text \<open>\<open>insertAfter(parent, node, after)\<close>: before \<open>after.nextSibling\<close> when there is one,
  appended otherwise.\<close>

definition insertAfter :: "node list \<Rightarrow> node \<Rightarrow> nat \<Rightarrow> domError + node list" where
  "insertAfter cs n after =
     (if after < length cs
      then (if Suc after < length cs then insertBefore cs n (Suc after)
            else Inr (appendChild cs n))
      else Inl NotFoundError)"

text \<open>
  \<open>insertCommentAnchorIntoParagraph\<close>, on the paragraph's child list. The anchor node is
  the candidate at \<open>anchorIndex\<close>, or a new space run appended to the paragraph when there
  is no such candidate. Inserting the range start moves the anchor one position right;
  the range end then sits right of the anchor, and the reference run is inserted after
  the range end.
\<close>

definition insertCommentAnchorIntoParagraph :: "node \<Rightarrow> int \<Rightarrow> nat \<Rightarrow> domError + node" where
  "insertCommentAnchorIntoParagraph paragraph commentId anchorIndex =
     (let positions = candidatePositions paragraph;
          target = nthOrNull positions anchorIndex;
          (cs0, anchorPos) =
            (case target of
               Some p \<Rightarrow> (childNodes paragraph, p)
             | None \<Rightarrow> (appendChild (childNodes paragraph) createSpaceRun,
                         length (childNodes paragraph)));
          rangeStart = createRangeStart commentId;
          rangeEnd = createRangeEnd commentId;
          refRun = createCommentReferenceRun commentId
      in case insertBefore cs0 rangeStart anchorPos of
           Inl e \<Rightarrow> Inl e
         | Inr cs1 \<Rightarrow>
             (case insertAfter cs1 rangeEnd (Suc anchorPos) of
                Inl e \<Rightarrow> Inl e
              | Inr cs2 \<Rightarrow>
                  (case insertAfter cs2 refRun (Suc (Suc anchorPos)) of
                     Inl e \<Rightarrow> Inl e
                   | Inr cs3 \<Rightarrow> Inr (setChildNodes paragraph cs3))))"

section \<open>Sample inputs\<close>

definition sampleParagraph :: node where
  "sampleParagraph =
     Element W_NS ''w'' ''p'' []
       [Element W_NS ''w'' ''pPr'' [] [],
        Element W_NS ''w'' ''r'' [] [Element W_NS ''w'' ''t'' [] [Text (js ''ab'')]],
        Element W_NS ''w'' ''r'' [] [Element W_NS ''w'' ''tab'' [] []]]"

definition emptyParagraph :: node where
  "emptyParagraph = Element W_NS ''w'' ''p'' [] [Element W_NS ''w'' ''pPr'' [] []]"

section \<open>Package manifests\<close>






















section \<open>Normalisation with an index map\<close>

text \<open>
  \<open>String.prototype.toLowerCase\<close> and \<open>fuzzball.partial_ratio\<close> belong to the runtime
  and to a library, not to this repository. Every function that calls them takes them as
  parameters: \<open>lc\<close> gives, for one code unit, the code units of its lower-case form, and
  \<open>pr needle haystack\<close> is the partial-ratio score.
\<close>

text \<open>The quote and dash folding of \<open>normalizeForFuzzyIndexing\<close>: U+2019, U+2018,
  U+02BC, U+FF07 and U+201B become an apostrophe, U+201C and U+201D a double quote, U+2013
  and U+2014 a hyphen.\<close>

definition foldQuotes :: "nat \<Rightarrow> nat" where
  "foldQuotes ch =
     (if ch = 8217 \<or> ch = 8216 \<or> ch = 700 \<or> ch = 65287 \<or> ch = 8219 then 39
      else if ch = 8220 \<or> ch = 8221 then 34
      else if ch = 8211 \<or> ch = 8212 then 45
      else ch)"

text \<open>The loop of \<open>normalizeForFuzzyIndexing\<close> over the rest of the text from index
  \<open>i\<close>; the state is \<open>(normalized, normToOrig, lastWasSpace)\<close>.\<close>

fun normalizeLoop ::
  "(nat \<Rightarrow> jsstring) \<Rightarrow> jsstring \<Rightarrow> nat \<Rightarrow> jsstring \<times> nat list \<times> bool \<Rightarrow>
   jsstring \<times> nat list \<times> bool" where
  "normalizeLoop lc [] i st = st"
| "normalizeLoop lc (raw # rest) i (normalized, normToOrig, lastWasSpace) =
     (if isSpace raw then
        (if \<not> lastWasSpace
         then normalizeLoop lc rest (i + 1) (normalized @ [32], normToOrig @ [i], True)
         else normalizeLoop lc rest (i + 1) (normalized, normToOrig, lastWasSpace))
      else normalizeLoop lc rest (i + 1)
             (normalized @ lc (foldQuotes raw), normToOrig @ [i], False))"

definition normalizeForFuzzyIndexing ::
  "(nat \<Rightarrow> jsstring) \<Rightarrow> jsstring \<Rightarrow> jsstring \<times> nat list" where
  "normalizeForFuzzyIndexing lc text =
     (case normalizeLoop lc text 0 ([], [], False) of
        (normalized, normToOrig, _) \<Rightarrow> (trim normalized, normToOrig))"

definition normalizeForFuzzySearch :: "(nat \<Rightarrow> jsstring) \<Rightarrow> jsstring \<Rightarrow> jsstring" where
  "normalizeForFuzzySearch lc text = fst (normalizeForFuzzyIndexing lc text)"

text \<open>\<open>s.indexOf(needle)\<close>, with \<open>None\<close> for \<open>-1\<close>, and \<open>s.includes(needle)\<close>.\<close>

definition indexOf :: "jsstring \<Rightarrow> jsstring \<Rightarrow> nat option" where
  "indexOf s needle =
     find (\<lambda>i. take (length needle) (drop i s) = needle) [0 ..< Suc (length s)]"

definition includesStr :: "jsstring \<Rightarrow> jsstring \<Rightarrow> bool" where
  "includesStr s needle \<longleftrightarrow> indexOf s needle \<noteq> None"

section \<open>Approximate start of the anchor inside a paragraph\<close>

definition scanNeedleOf :: "jsstring \<Rightarrow> jsstring" where
  "scanNeedleOf normAnchor = (if length normAnchor > 220 then take 220 normAnchor else normAnchor)"

definition windowLenOf :: "jsstring \<Rightarrow> nat" where
  "windowLenOf scanNeedle = min (max (length scanNeedle) 80) 260"

text \<open>
  The window scan of \<open>findApproxMatchStartIndex\<close>, from position \<open>pos\<close> in steps of 5.
  The loop condition \<open>pos <= Math.max(0, normPara.length - 1)\<close> is the truncating
  subtraction on naturals. The result is \<open>(bestScore, bestPos)\<close>, with \<open>bestPos = -1\<close>
  while no window has scored above 0.
\<close>

definition slice :: "jsstring \<Rightarrow> nat \<Rightarrow> nat \<Rightarrow> jsstring" where
  "slice s a b = take (b - a) (drop a s)"

function scanLoop ::
  "(jsstring \<Rightarrow> jsstring \<Rightarrow> int) \<Rightarrow> jsstring \<Rightarrow> jsstring \<Rightarrow> nat \<Rightarrow> nat \<Rightarrow> int \<Rightarrow> int \<Rightarrow>
   int \<times> int" where
  "scanLoop pr scanNeedle normPara windowLen pos bestScore bestPos =
     (if pos \<le> length normPara - 1 then
        (if slice normPara pos (pos + windowLen) = [] then (bestScore, bestPos)
         else (if pr scanNeedle (slice normPara pos (pos + windowLen)) > bestScore
               then (if pr scanNeedle (slice normPara pos (pos + windowLen)) \<ge> 98
                     then (pr scanNeedle (slice normPara pos (pos + windowLen)), int pos)
                     else scanLoop pr scanNeedle normPara windowLen (pos + 5)
                            (pr scanNeedle (slice normPara pos (pos + windowLen))) (int pos))
               else scanLoop pr scanNeedle normPara windowLen (pos + 5) bestScore bestPos))
      else (bestScore, bestPos))"
  by pat_completeness auto
termination
  by (relation "measure (\<lambda>(pr, scanNeedle, normPara, windowLen, pos, bestScore, bestPos).
        length normPara - pos)") (auto simp: slice_def)

declare scanLoop.simps [simp del]

text \<open>The positions the scan visits when no window scores 98 or more, and the score of the
  window at a position.\<close>

definition isScanPosition :: "jsstring \<Rightarrow> nat \<Rightarrow> bool" where
  "isScanPosition normPara p \<longleftrightarrow> p mod 5 = 0 \<and> p < length normPara"

definition windowScore ::
  "(jsstring \<Rightarrow> jsstring \<Rightarrow> int) \<Rightarrow> jsstring \<Rightarrow> jsstring \<Rightarrow> nat \<Rightarrow> nat \<Rightarrow> int" where
  "windowScore pr scanNeedle normPara windowLen p =
     pr scanNeedle (slice normPara p (p + windowLen))"

text \<open>
  What the scan knows before it looks at position \<open>pos\<close>: either no window below \<open>pos\<close>
  has scored above 0, or \<open>bestPos\<close> is the first position below \<open>pos\<close> whose window has
  the largest score among the windows below \<open>pos\<close>; and no window has reached 98.
\<close>

definition scanInv ::
  "(jsstring \<Rightarrow> jsstring \<Rightarrow> int) \<Rightarrow> jsstring \<Rightarrow> jsstring \<Rightarrow> nat \<Rightarrow> nat \<Rightarrow> int \<Rightarrow> int \<Rightarrow> bool" where
  "scanInv pr scanNeedle normPara windowLen pos bestScore bestPos \<longleftrightarrow>
     bestScore < 98 \<and>
     ((bestPos = - 1 \<and> bestScore = 0 \<and>
       (\<forall>p. isScanPosition normPara p \<and> p < pos \<longrightarrow>
          windowScore pr scanNeedle normPara windowLen p \<le> 0)) \<or>
      (0 \<le> bestPos \<and> isScanPosition normPara (nat bestPos) \<and> nat bestPos < pos \<and>
       bestScore = windowScore pr scanNeedle normPara windowLen (nat bestPos) \<and> 0 < bestScore \<and>
       (\<forall>p. isScanPosition normPara p \<and> p < nat bestPos \<longrightarrow>
          windowScore pr scanNeedle normPara windowLen p < bestScore) \<and>
       (\<forall>p. isScanPosition normPara p \<and> p < pos \<longrightarrow>
          windowScore pr scanNeedle normPara windowLen p \<le> bestScore)))"

definition fuzzyScan ::
  "(jsstring \<Rightarrow> jsstring \<Rightarrow> int) \<Rightarrow> jsstring \<Rightarrow> jsstring \<Rightarrow> nat list \<Rightarrow> nat option" where
  "fuzzyScan pr normAnchor normPara normToOrig =
     (let scanNeedle = scanNeedleOf normAnchor;
          windowLen = windowLenOf scanNeedle;
          (bestScore, bestPos) = scanLoop pr scanNeedle normPara windowLen 0 0 (- 1)
      in if bestPos \<ge> 0 \<and> bestScore \<ge> 60 then nthOrNull normToOrig (nat bestPos) else None)"

definition findApproxMatchStartIndex ::
  "(nat \<Rightarrow> jsstring) \<Rightarrow> (jsstring \<Rightarrow> jsstring \<Rightarrow> int) \<Rightarrow> jsstring \<Rightarrow> jsstring \<Rightarrow> nat option" where
  "findApproxMatchStartIndex lc pr paragraphText anchorText =
     (let (normPara, normToOrig) = normalizeForFuzzyIndexing lc paragraphText;
          normAnchor = normalizeForFuzzySearch lc anchorText
      in if normAnchor = [] then None
         else (case indexOf normPara normAnchor of
                 Some direct \<Rightarrow> nthOrNull normToOrig direct
               | None \<Rightarrow>
                   (let prefix = trim (take 80 normAnchor)
                    in case (if length prefix \<ge> 12 then indexOf normPara prefix else None) of
                         Some idx \<Rightarrow> nthOrNull normToOrig idx
                       | None \<Rightarrow> fuzzyScan pr normAnchor normPara normToOrig)))"

section \<open>Best paragraph for an anchor\<close>

record matchResult =
  bestIndex :: int
  bestScore :: int
  bestMethod :: string

definition scoreMatch ::
  "(jsstring \<Rightarrow> jsstring \<Rightarrow> int) \<Rightarrow> jsstring \<Rightarrow> jsstring \<Rightarrow> int \<times> string" where
  "scoreMatch pr anchorText paragraphText = (pr anchorText paragraphText, ''partial_ratio'')"

definition bestMatchStep ::
  "(jsstring \<Rightarrow> jsstring \<Rightarrow> int) \<Rightarrow> jsstring \<Rightarrow> jsstring list \<Rightarrow> matchResult \<Rightarrow> nat \<Rightarrow> matchResult" where
  "bestMatchStep pr cleanAnchor paragraphTexts best i =
     (let rawParagraphText = (case nthOrNull paragraphTexts i of None \<Rightarrow> [] | Some t \<Rightarrow> t)
      in if trim rawParagraphText = [] then best
         else (case scoreMatch pr cleanAnchor rawParagraphText of
                 (score, method) \<Rightarrow>
                   if score > bestScore best
                   then \<lparr>bestIndex = int i, bestScore = score, bestMethod = method\<rparr>
                   else best))"

definition findBestParagraphMatch ::
  "(jsstring \<Rightarrow> jsstring \<Rightarrow> int) \<Rightarrow> node list \<Rightarrow> jsstring list \<Rightarrow> jsstring \<Rightarrow> matchResult" where
  "findBestParagraphMatch pr paragraphs paragraphTexts anchorText =
     (let cleanAnchor = cleanAnchorText anchorText
      in if cleanAnchor = []
         then \<lparr>bestIndex = - 1, bestScore = 0, bestMethod = ''partial_ratio''\<rparr>
         else foldl (bestMatchStep pr cleanAnchor paragraphTexts)
                \<lparr>bestIndex = - 1, bestScore = 0, bestMethod = ''partial_ratio''\<rparr>
                [0 ..< length paragraphs])"

section \<open>Comments part\<close>

text \<open>The string that \<open>getMaxCommentId\<close> parses for a comment element, \<open>idAttr ?? "0"\<close>, and
  the id it reads from it; \<open>None\<close> is a value that \<open>Number.isFinite\<close> rejects.\<close>

definition commentIdString :: "node \<Rightarrow> jsstring" where
  "commentIdString el =
     (let idAttr = (case getAttributeNS el W_NS ''id'' of
                      Some v \<Rightarrow> Some v
                    | None \<Rightarrow> getAttribute el ''w:id'')
      in case idAttr of Some v \<Rightarrow> v | None \<Rightarrow> js ''0'')"

definition commentIdOf :: "node \<Rightarrow> int option" where
  "commentIdOf el = parseInt (commentIdString el)"

definition maxCommentIdStep :: "int \<Rightarrow> node \<Rightarrow> int" where
  "maxCommentIdStep mx el =
     (case commentIdOf el of
        None \<Rightarrow> mx
      | Some n \<Rightarrow> if n > mx then n else mx)"

definition getMaxCommentId :: "node \<Rightarrow> int" where
  "getMaxCommentId commentsDoc =
     foldl maxCommentIdStep 0 (getElementsByTagNameNS commentsDoc W_NS ''comment'')"

text \<open>Appending a child to the first element, in document order, that satisfies \<open>P\<close>;
  \<open>None\<close> when no element does.\<close>

fun appendToFirst :: "(node \<Rightarrow> bool) \<Rightarrow> node \<Rightarrow> node \<Rightarrow> node option"
  and appendToFirstIn :: "(node \<Rightarrow> bool) \<Rightarrow> node \<Rightarrow> node list \<Rightarrow> node list option" where
  "appendToFirst P new (Element ns p l a cs) =
     (if P (Element ns p l a cs) then Some (Element ns p l a (cs @ [new]))
      else map_option (Element ns p l a) (appendToFirstIn P new cs))"
| "appendToFirst P new (Text s) = None"
| "appendToFirst P new Misc = None"
| "appendToFirstIn P new [] = None"
| "appendToFirstIn P new (c # cs) =
     (case appendToFirst P new c of
        Some c' \<Rightarrow> Some (c' # cs)
      | None \<Rightarrow> map_option ((#) c) (appendToFirstIn P new cs))"

text \<open>The comment element that \<open>addNativeComment\<close> builds. \<open>t.textContent = text\<close> gives
  the \<open>w:t\<close> element one text node, and no child when the text is empty.\<close>

definition createComment :: "int \<Rightarrow> jsstring \<Rightarrow> jsstring \<Rightarrow> jsstring \<Rightarrow> node" where
  "createComment commentId author isoDate text =
     Element W_NS ''w'' ''comment''
       [Attr W_NS ''w'' ''id'' (String_of_int commentId),
        Attr W_NS ''w'' ''author'' author,
        Attr W_NS ''w'' ''date'' isoDate]
       [Element W_NS ''w'' ''p'' []
          [Element W_NS ''w'' ''r'' [] [Element W_NS ''w'' ''annotationRef'' [] []],
           Element W_NS ''w'' ''r'' []
             [Element W_NS ''w'' ''t'' [Attr XML_NS ''xml'' ''space'' (js ''preserve'')]
                (if text = [] then [] else [Text text])]]]"

text \<open>\<open>addNativeComment\<close>: the comment goes under the first \<open>w:comments\<close> element of the
  document, or under the document element when there is none.\<close>

definition addNativeComment :: "node \<Rightarrow> int \<Rightarrow> jsstring \<Rightarrow> jsstring \<Rightarrow> jsstring \<Rightarrow> node" where
  "addNativeComment commentsDoc commentId author isoDate text =
     (let comment = createComment commentId author isoDate text
      in case appendToFirst (\<lambda>e. namespaceURI e = W_NS \<and> localName e = ''comments'')
                comment commentsDoc of
           Some d \<Rightarrow> d
         | None \<Rightarrow> setChildNodes commentsDoc (appendChild (childNodes commentsDoc) comment))"

section \<open>The merge run\<close>

record item =
  anchor_text :: "jsstring option"
  comment_text :: "jsstring option"
  author :: "jsstring option"
  edit_type_label :: "jsstring option"

datatype startMethodT = SM_substring | SM_prefix | SM_fuzzy | SM_none

text \<open>An entry of \<open>MergeResult.details\<close>; its field \<open>method\<close> is \<open>methodName\<close> here.\<close>

record detail =
  index :: nat
  score :: int
  anchorPreview :: jsstring
  targetPreview :: jsstring
  methodName :: string
  approxStart :: "nat option"
  anchorNodeIndex :: nat
  startMethod :: startMethodT

record mergeResult =
  res_mergedCount :: nat
  res_totalCount :: nat
  res_details :: "detail list"

text \<open>
  The state of the loop over the records. \<open>paragraphs\<close> holds the paragraph elements in
  document order; the source changes one through the reference it holds, the model through
  its index. The entries are separate values: a paragraph nested inside another paragraph
  (a text box) is one object under two entries in the source and two values here.
  \<open>usedAnchorIndicesByParagraph\<close> is the \<open>Map\<close> from paragraph index to the \<open>Set\<close> of
  indices, a set being the list of its members in insertion order.
\<close>

record mergeState =
  paragraphs :: "node list"
  commentsDoc :: node
  nextCommentId :: int
  mergedCount :: nat
  details :: "detail list"
  usedAnchorIndicesByParagraph :: "nat \<Rightarrow> nat list option"

text \<open>\<open>while (used.has(anchorIdx)) anchorIdx++\<close>\<close>

function probe :: "nat list \<Rightarrow> nat \<Rightarrow> nat" where
  "probe used anchorIdx = (if anchorIdx \<in> set used then probe used (anchorIdx + 1) else anchorIdx)"
  by pat_completeness auto
termination
proof (relation "measure (\<lambda>(used, anchorIdx). Suc (Max (insert 0 (set used))) - anchorIdx)")
  show "wf (measure (\<lambda>(used, anchorIdx). Suc (Max (insert 0 (set used))) - anchorIdx))"
    by simp
next
  fix used :: "nat list" and anchorIdx :: nat
  assume "anchorIdx \<in> set used"
  then have "anchorIdx \<le> Max (insert 0 (set used))"
    by (intro Max_ge) simp_all
  then show "((used, anchorIdx + 1), (used, anchorIdx)) \<in>
      measure (\<lambda>(used, anchorIdx). Suc (Max (insert 0 (set used))) - anchorIdx)"
    by simp
qed

declare probe.simps [simp del]

definition setAdd :: "nat list \<Rightarrow> nat \<Rightarrow> nat list" where
  "setAdd used x = (if x \<in> set used then used else used @ [x])"

text \<open>Lines 675 to 693 of the loop body: the start method and the approximate start.\<close>

definition locateStart ::
  "(nat \<Rightarrow> jsstring) \<Rightarrow> (jsstring \<Rightarrow> jsstring \<Rightarrow> int) \<Rightarrow> jsstring \<Rightarrow> jsstring \<Rightarrow>
   startMethodT \<times> nat option" where
  "locateStart lc pr paraText anchor =
     (let normPara = fst (normalizeForFuzzyIndexing lc paraText);
          normAnchor = normalizeForFuzzySearch lc anchor
      in if normAnchor \<noteq> [] \<and> includesStr normPara normAnchor
         then (SM_substring, findApproxMatchStartIndex lc pr paraText anchor)
         else (let prefix = (if normAnchor \<noteq> [] then trim (take 80 normAnchor) else [])
               in if prefix \<noteq> [] \<and> includesStr normPara prefix
                  then (SM_prefix, findApproxMatchStartIndex lc pr paraText anchor)
                  else (let approxStart = findApproxMatchStartIndex lc pr paraText anchor
                        in (if approxStart = None then SM_none else SM_fuzzy, approxStart))))"

definition emptyItem :: item where
  "emptyItem = \<lparr>anchor_text = None, comment_text = None, author = None, edit_type_label = None\<rparr>"

text \<open>One iteration of the loop over the records, for the record \<open>items[i]\<close>. An exception
  of the insertion ends the run; \<open>continue\<close> returns the state as it is.\<close>

definition mergeStep ::
  "(nat \<Rightarrow> jsstring) \<Rightarrow> (jsstring \<Rightarrow> jsstring \<Rightarrow> int) \<Rightarrow> jsstring \<Rightarrow> jsstring list \<Rightarrow>
   mergeState \<Rightarrow> nat \<Rightarrow> item option \<Rightarrow> domError + mergeState" where
  "mergeStep lc pr nowIso paragraphTexts s i itemOrNull =
     (let item = (case itemOrNull of None \<Rightarrow> emptyItem | Some it \<Rightarrow> it);
          anchor = (case anchor_text item of None \<Rightarrow> [] | Some v \<Rightarrow> v);
          commentText = (case comment_text item of None \<Rightarrow> [] | Some v \<Rightarrow> v);
          authorTrimmed = trim (case author item of None \<Rightarrow> js ''Reviewer'' | Some v \<Rightarrow> v);
          authorName = (if authorTrimmed = [] then js ''Reviewer'' else authorTrimmed);
          editTypeLabel = edit_type_label item;
          best = findBestParagraphMatch pr (paragraphs s) paragraphTexts anchor
      in if bestIndex best < 0 then Inr s
         else (case nthOrNull (paragraphs s) (nat (bestIndex best)) of
                 None \<Rightarrow> Inr s
               | Some paragraph \<Rightarrow>
                   (let b = nat (bestIndex best);
                        prefix = (case editTypeLabel of
                                    None \<Rightarrow> []
                                  | Some l \<Rightarrow> if l = [] then [] else js ''['' @ l @ js ''] '');
                        fullCommentText = prefix @ commentText;
                        commentId = nextCommentId s;
                        commentsDoc' =
                          addNativeComment (commentsDoc s) commentId authorName nowIso fullCommentText;
                        paraText = (case nthOrNull paragraphTexts b of None \<Rightarrow> [] | Some t \<Rightarrow> t);
                        (startMethod, approxStart) = locateStart lc pr paraText anchor;
                        anchorIdx0 =
                          findBestAnchorCandidateIndexForOffset paragraph
                            (case approxStart of None \<Rightarrow> 0 | Some a \<Rightarrow> a);
                        used = (case usedAnchorIndicesByParagraph s b of None \<Rightarrow> [] | Some u \<Rightarrow> u);
                        anchorIdx = probe used anchorIdx0;
                        used' = setAdd used anchorIdx
                    in case insertCommentAnchorIntoParagraph paragraph commentId anchorIdx of
                         Inl e \<Rightarrow> Inl e
                       | Inr paragraph' \<Rightarrow>
                           Inr \<lparr>paragraphs = (paragraphs s)[b := paragraph'],
                                commentsDoc = commentsDoc',
                                nextCommentId = plusOne commentId,
                                mergedCount = mergedCount s + 1,
                                details = details s @
                                  [\<lparr>index = i,
                                    score = bestScore best,
                                    anchorPreview = take 80 (cleanAnchorText anchor),
                                    targetPreview = take 80 (cleanAnchorText paraText), methodName = bestMethod best,
                                    approxStart = approxStart,
                                    anchorNodeIndex = anchorIdx,
                                    startMethod = startMethod\<rparr>],
                                usedAnchorIndicesByParagraph =
                                  (usedAnchorIndicesByParagraph s)(b \<mapsto> used')\<rparr>)))"

fun mergeLoop ::
  "(nat \<Rightarrow> jsstring) \<Rightarrow> (jsstring \<Rightarrow> jsstring \<Rightarrow> int) \<Rightarrow> jsstring \<Rightarrow> jsstring list \<Rightarrow>
   item option list \<Rightarrow> nat \<Rightarrow> mergeState \<Rightarrow> domError + mergeState" where
  "mergeLoop lc pr nowIso paragraphTexts [] i s = Inr s"
| "mergeLoop lc pr nowIso paragraphTexts (it # its) i s =
     (case mergeStep lc pr nowIso paragraphTexts s i it of
        Inl e \<Rightarrow> Inl e
      | Inr s' \<Rightarrow> mergeLoop lc pr nowIso paragraphTexts its (i + 1) s')"

definition initialState :: "node list \<Rightarrow> node \<Rightarrow> mergeState" where
  "initialState paras comments =
     \<lparr>paragraphs = paras,
      commentsDoc = comments,
      nextCommentId = plusOne (getMaxCommentId comments),
      mergedCount = 0,
      details = [],
      usedAnchorIndicesByParagraph = Map.empty\<rparr>"

text \<open>
  The part of \<open>mergeDocxAddNativeCommentsInPlace\<close> between parsing and the manifest
  fix-ups: from the paragraphs of the document, the comments document and the records to the
  final state and the \<open>MergeResult\<close>.
\<close>

definition mergeRun ::
  "(nat \<Rightarrow> jsstring) \<Rightarrow> (jsstring \<Rightarrow> jsstring \<Rightarrow> int) \<Rightarrow> jsstring \<Rightarrow> node list \<Rightarrow> node \<Rightarrow>
   item option list \<Rightarrow> domError + (mergeState \<times> mergeResult)" where
  "mergeRun lc pr nowIso paras comments items =
     (let paragraphTexts = map getParagraphText paras
      in case mergeLoop lc pr nowIso paragraphTexts items 0 (initialState paras comments) of
           Inl e \<Rightarrow> Inl e
         | Inr s \<Rightarrow>
             Inr (s, \<lparr>res_mergedCount = mergedCount s,
                      res_totalCount = length items,
                      res_details = details s\<rparr>))"

section \<open>Notions used to state the properties of a run\<close>

text \<open>The anchor text the loop reads from a record, the paragraph index it matches the
  record to (\<open>-1\<close> for none), and the used anchor indices of a paragraph.\<close>

definition anchorOf :: "item option \<Rightarrow> jsstring" where
  "anchorOf itemOrNull =
     (case itemOrNull of
        None \<Rightarrow> []
      | Some it \<Rightarrow> (case anchor_text it of None \<Rightarrow> [] | Some v \<Rightarrow> v))"

definition matchedParagraph ::
  "(jsstring \<Rightarrow> jsstring \<Rightarrow> int) \<Rightarrow> node list \<Rightarrow> jsstring list \<Rightarrow> item option \<Rightarrow> int" where
  "matchedParagraph pr paras paragraphTexts itemOrNull =
     bestIndex (findBestParagraphMatch pr paras paragraphTexts (anchorOf itemOrNull))"

definition usedOf :: "mergeState \<Rightarrow> nat \<Rightarrow> nat list" where
  "usedOf s b = (case usedAnchorIndicesByParagraph s b of None \<Rightarrow> [] | Some u \<Rightarrow> u)"

text \<open>The ids of the comment elements among some elements, and of a comments document, in
  document order: the integers that their id strings denote, with no rounding.\<close>

definition commentIdExact :: "node \<Rightarrow> int option" where
  "commentIdExact el = decimalValue (commentIdString el)"

definition commentIdsIn :: "node list \<Rightarrow> int option list" where
  "commentIdsIn es =
     map commentIdExact (filter (\<lambda>e. namespaceURI e = W_NS \<and> localName e = ''comment'') es)"

definition commentIds :: "node \<Rightarrow> int option list" where
  "commentIds doc = commentIdsIn (subtreeElements doc)"

text \<open>The comments document during the loop: it holds the comments it started with and one
  comment for each details entry, whose ids are written from the values that the counter
  takes from \<open>firstId\<close> on.\<close>

definition commentsInv :: "node \<Rightarrow> int \<Rightarrow> mergeState \<Rightarrow> bool" where
  "commentsInv comments firstId s \<longleftrightarrow>
     isElement (commentsDoc s) \<and>
     mset (commentIds (commentsDoc s)) =
       mset (commentIds comments) +
       mset (map (\<lambda>k. decimalValue (String_of_int ((plusOne ^^ k) firstId)))
              [0 ..< length (details s)])"

text \<open>
  The state of the loop before record \<open>i\<close>: the paragraph list has kept its length, the
  details name the merged records below \<open>i\<close> in order, \<open>mergedCount\<close> counts them, the next
  comment id has been incremented once per detail, every recorded anchor index is in the used set of
  its paragraph, and no two details share both paragraph and anchor index.
\<close>

definition loopInv ::
  "(jsstring \<Rightarrow> jsstring \<Rightarrow> int) \<Rightarrow> node list \<Rightarrow> jsstring list \<Rightarrow> item option list \<Rightarrow> int \<Rightarrow>
   nat \<Rightarrow> mergeState \<Rightarrow> bool" where
  "loopInv pr paras paragraphTexts items firstId i s \<longleftrightarrow>
     length (paragraphs s) = length paras \<and>
     map index (details s) =
       filter (\<lambda>j. 0 \<le> matchedParagraph pr paras paragraphTexts (items ! j)) [0 ..< i] \<and>
     mergedCount s = length (details s) \<and>
     nextCommentId s = (plusOne ^^ length (details s)) firstId \<and>
     (\<forall>d \<in> set (details s).
        anchorNodeIndex d \<in>
          set (usedOf s (nat (matchedParagraph pr paras paragraphTexts (items ! index d))))) \<and>
     distinct (map (\<lambda>d. (matchedParagraph pr paras paragraphTexts (items ! index d),
                           anchorNodeIndex d)) (details s))"

text \<open>
  A text on which the lower-case conversion keeps the index map aligned: each character that
  is not whitespace lower-cases, after the quote folding, to exactly one code unit that is not
  whitespace. \<open>noDoubleSpace\<close> says that a string has no two spaces in a row.
\<close>

definition unitLowerOn :: "(nat \<Rightarrow> jsstring) \<Rightarrow> jsstring \<Rightarrow> bool" where
  "unitLowerOn lc text \<longleftrightarrow>
     (\<forall>c \<in> set text. \<not> isSpace c \<longrightarrow> (\<exists>d. lc (foldQuotes c) = [d] \<and> \<not> isSpace d))"

fun noDoubleSpace :: "jsstring \<Rightarrow> bool" where
  "noDoubleSpace (a # b # r) = (\<not> (a = 32 \<and> b = 32) \<and> noDoubleSpace (b # r))"
| "noDoubleSpace [a] = True"
| "noDoubleSpace [] = True"

definition tidy :: "jsstring \<Rightarrow> bool" where
  "tidy nm \<longleftrightarrow> (\<forall>c \<in> set nm. isSpace c \<longrightarrow> c = 32) \<and> noDoubleSpace nm"

section \<open>Concrete parameters for evaluation\<close>

text \<open>
  The values of \<open>toLowerCase\<close> on the Basic Latin capitals and on U+0130, whose lower-case
  form is the two code units U+0069 U+0307. Every other code unit is returned as it is, so
  this instance is meant for inputs made of Basic Latin characters and U+0130 only.
\<close>

definition toLowerCaseUnit :: "nat \<Rightarrow> jsstring" where
  "toLowerCaseUnit c =
     (if 65 \<le> c \<and> c \<le> 90 then [c + 32] else if c = 304 then [105, 775] else [c])"

text \<open>A scorer for concrete runs: 100 when the needle occurs in the haystack, 0 otherwise
  (the partial ratio of a needle that occurs verbatim is 100).\<close>

definition exactRatio :: "jsstring \<Rightarrow> jsstring \<Rightarrow> int" where
  "exactRatio needle haystack = (if includesStr haystack needle then 100 else 0)"

section \<open>Sample documents and records\<close>

definition sampleComments :: node where
  "sampleComments =
     Element W_NS ''w'' ''comments'' []
       [Element W_NS ''w'' ''comment'' [Attr W_NS ''w'' ''id'' (js ''3'')] []]"

definition foxParagraph :: node where
  "foxParagraph =
     Element W_NS ''w'' ''p'' []
       [Element W_NS ''w'' ''r'' []
          [Element W_NS ''w'' ''t'' [] [Text (js ''The quick brown fox'')]]]"

definition foxItem :: item where
  "foxItem = \<lparr>anchor_text = Some (js ''brown''), comment_text = Some (js ''nice''),
      author = Some (js ''Kate''), edit_type_label = None\<rparr>"

definition blankItem :: item where
  "blankItem = \<lparr>anchor_text = Some (js ''  ''), comment_text = Some (js ''lost''),
      author = None, edit_type_label = None\<rparr>"

text \<open>A paragraph with the text U+0130 U+0130 \<open>x\<close>, and a record anchored at \<open>x\<close>.\<close>

definition dotParagraph :: node where
  "dotParagraph =
     Element W_NS ''w'' ''p'' []
       [Element W_NS ''w'' ''r'' [] [Element W_NS ''w'' ''t'' [] [Text [304, 304, 120]]]]"

definition dotItem :: item where
  "dotItem = \<lparr>anchor_text = Some [120], comment_text = Some (js ''here''),
      author = None, edit_type_label = None\<rparr>"

text \<open>A comments part whose comment has the id \<open>9007199254740992\<close>, which is \<open>2^53\<close>.\<close>

definition bigComments :: node where
  "bigComments =
     Element W_NS ''w'' ''comments'' []
       [Element W_NS ''w'' ''comment'' [Attr W_NS ''w'' ''id'' (js ''9007199254740992'')] []]"
section \<open>Rounding, parsing and printing of integers\<close>


lemma shiftOf_small: "n < 2 ^ 53 \<Longrightarrow> shiftOf n = 0"
  by (subst shiftOf.simps) simp

lemma shiftOf_53: "shiftOf 9007199254740992 = 1" "shiftOf 9007199254740993 = 1"
  by (subst shiftOf.simps, simp add: shiftOf_small)+

lemma roundMagnitude_small: "n \<le> 2 ^ 53 \<Longrightarrow> roundMagnitude n = n"
proof (cases "n < 2 ^ 53")
  case True
  then show ?thesis by (simp add: roundMagnitude_def shiftOf_small)
next
  case False
  assume "n \<le> 2 ^ 53"
  with False have "n = 2 ^ 53" by simp
  then show ?thesis by (simp add: roundMagnitude_def shiftOf_53)
qed

lemma roundToDouble_exact: "\<bar>n\<bar> \<le> 2 ^ 53 \<Longrightarrow> roundToDouble n = n"
proof -
  assume a: "\<bar>n\<bar> \<le> 2 ^ 53"
  then have "nat \<bar>n\<bar> \<le> 2 ^ 53" by (simp add: nat_le_iff)
  then have "roundMagnitude (nat \<bar>n\<bar>) = nat \<bar>n\<bar>" by (rule roundMagnitude_small)
  then show ?thesis by (cases "n < 0") (simp_all add: roundToDouble_def)
qed

lemma roundToDouble_sign: "n < 0 \<Longrightarrow> roundToDouble n \<le> 0"
  by (simp add: roundToDouble_def)

lemma isFiniteDouble_small: "\<bar>n\<bar> \<le> 2 ^ 53 \<Longrightarrow> isFiniteDouble n"
proof -
  assume "\<bar>n\<bar> \<le> 2 ^ 53"
  moreover have "(2::int) ^ 53 < 2 ^ 1024" by (rule power_strict_increasing) simp_all
  ultimately show ?thesis by (simp add: isFiniteDouble_def)
qed

lemma plusOne_exact: "0 \<le> n \<Longrightarrow> n < 2 ^ 53 \<Longrightarrow> plusOne n = n + 1"
  by (simp add: plusOne_def roundToDouble_exact)

lemma plusOne_stall: "plusOne 9007199254740992 = 9007199254740992"
  by (simp add: plusOne_def roundToDouble_def roundMagnitude_def shiftOf_53)

lemma funpow_plusOne: "0 \<le> n \<Longrightarrow> n + int k \<le> 2 ^ 53 \<Longrightarrow> (plusOne ^^ k) n = n + int k"
proof (induction k)
  case 0
  then show ?case by simp
next
  case (Suc k)
  then have "(plusOne ^^ k) n = n + int k" by simp
  moreover from Suc.prems have "plusOne (n + int k) = n + int k + 1"
    by (intro plusOne_exact) simp_all
  ultimately show ?case by simp
qed

lemma funpow_plusOne_stall: "(plusOne ^^ k) 9007199254740992 = 9007199254740992"
  by (induction k) (simp_all add: plusOne_stall)

lemma digitsValue_snoc: "digitsValue (ds @ [d]) = 10 * digitsValue ds + (d - 48)"
  by (simp add: digitsValue_def)

lemma digitsOf_props:
  "digitsOf n \<noteq> [] \<and> list_all isDigit (digitsOf n) \<and> digitsValue (digitsOf n) = n"
proof (induction n rule: digitsOf.induct)
  case (1 n)
  show ?case
  proof (cases "n < 10")
    case True
    then have "digitsOf n = [48 + n]" by (subst digitsOf.simps) simp
    with True show ?thesis by (simp add: isDigit_def digitsValue_def)
  next
    case False
    then have d: "digitsOf n = digitsOf (n div 10) @ [48 + n mod 10]"
      by (subst digitsOf.simps) simp
    from "1.IH" [OF False] have ih: "digitsOf (n div 10) \<noteq> []"
      "list_all isDigit (digitsOf (n div 10))" "digitsValue (digitsOf (n div 10)) = n div 10"
      by simp_all
    have "isDigit (48 + n mod 10)" by (simp add: isDigit_def)
    with ih show ?thesis
      by (simp add: d digitsValue_snoc)
  qed
qed

lemma digitsValue_decimalValue:
  assumes "ds \<noteq> []" "list_all isDigit ds"
  shows "decimalValue ds = Some (int (digitsValue ds))"
proof -
  obtain c r where ds: "ds = c # r" using assms(1) by (cases ds) auto
  with assms(2) have c: "isDigit c" by simp
  then have ns: "\<not> isSpace c" "c \<noteq> 45" "c \<noteq> 43"
    by (auto simp: isDigit_def isSpace_def)
  have tw: "takeWhile isDigit ds = ds"
    using assms(2) by (simp add: list_all_iff)
  show ?thesis
    using ns tw assms(1) by (simp add: decimalValue_def ds Let_def)
qed

lemma parseInt_exact:
  "decimalValue s = Some c \<Longrightarrow> \<bar>c\<bar> \<le> 2 ^ 53 \<Longrightarrow> parseInt s = Some c"
  by (simp add: parseInt_def roundToDouble_exact isFiniteDouble_small)

lemma parseInt_negative:
  "decimalValue s = Some c \<Longrightarrow> c < 0 \<Longrightarrow> parseInt s = Some c' \<Longrightarrow> c' \<le> 0"
  using roundToDouble_sign [of c] by (auto simp: parseInt_def split: if_splits)


lemma String_of_int_small: "0 \<le> n \<Longrightarrow> n < 2 ^ 53 \<Longrightarrow> String_of_int n = digitsOf (nat n)"
proof -
  assume a: "0 \<le> n" "n < 2 ^ 53"
  then have "nat n < 2 ^ 53" by (simp add: nat_less_iff)
  with a show ?thesis by (simp add: String_of_int_def numberString_def)
qed

lemma decimalValue_String_of_int:
  "0 \<le> n \<Longrightarrow> n < 2 ^ 53 \<Longrightarrow> decimalValue (String_of_int n) = Some n"
  using digitsOf_props [of "nat n"]
  by (simp add: String_of_int_small digitsValue_decimalValue)

text \<open>The number \<open>2^53 = 9007199254740992\<close>: its successor rounds back to it, and it is
  printed with all its sixteen digits.\<close>

lemma digitsOf_53: "digitsOf 9007199254740992 = js ''9007199254740992''"
  by (simp add: digitsOf.simps js_def)

lemma shiftOf_1: "2 ^ 53 \<le> n \<Longrightarrow> n < 2 ^ 54 \<Longrightarrow> shiftOf n = 1"
  by (subst shiftOf.simps) (simp add: shiftOf_small)

lemma roundMagnitude_54:
  "2 ^ 53 \<le> n \<Longrightarrow> n < 2 ^ 54 \<Longrightarrow>
     roundMagnitude n = (if odd n \<and> odd (n div 2) then (n div 2 + 1) * 2 else (n div 2) * 2)"
  by (auto simp: roundMagnitude_def shiftOf_1 Let_def odd_iff_mod_2_eq_one)

lemma expCandidates_53:
  "expCandidates 9007199254740992 1 = []" "expCandidates 9007199254740992 2 = []"
  "expCandidates 9007199254740992 3 = []" "expCandidates 9007199254740992 4 = []"
  "expCandidates 9007199254740992 5 = []" "expCandidates 9007199254740992 6 = []"
  "expCandidates 9007199254740992 7 = []" "expCandidates 9007199254740992 8 = []"
  "expCandidates 9007199254740992 9 = []" "expCandidates 9007199254740992 10 = []"
  "expCandidates 9007199254740992 11 = []" "expCandidates 9007199254740992 12 = []"
  "expCandidates 9007199254740992 13 = []" "expCandidates 9007199254740992 14 = []"
  "expCandidates 9007199254740992 15 = []"
  "expCandidates 9007199254740992 16 = [(16, 9007199254740992), (16, 9007199254740993)]"
  by (simp_all add: expCandidates_def digitsOf_53 js_def roundMagnitude_small roundMagnitude_54)

lemma shortestDigits_53: "shortestDigits 9007199254740992 = Some (16, 16, 9007199254740992)"
proof -
  have l: "[1 ..< Suc 16] = [1, 2, 3, 4, 5, 6, 7, 8, 9, 10, 11, 12, 13, 14, 15, 16::nat]"
    by (simp add: upt_rec)
  have len: "length (digitsOf 9007199254740992) = 16"
    by (simp add: digitsOf_53 js_def)
  have f: "find (\<lambda>k. expCandidates 9007199254740992 k \<noteq> [])
             [1 ..< Suc (length (digitsOf 9007199254740992))] = Some 16"
    by (simp only: len l find.simps expCandidates_53) simp
  have c: "closestCandidate 9007199254740992 16
             [(16, 9007199254740992), (16, 9007199254740993)] = Some (16, 9007199254740992)"
    by (simp add: closestCandidate_def distanceOf_def)
  show ?thesis
    by (simp only: shortestDigits_def f expCandidates_53 c option.case prod.case)
qed

lemma String_of_int_53: "String_of_int 9007199254740992 = js ''9007199254740992''"
  by (simp add: String_of_int_def numberString_def shortestDigits_53 digitsOf_53)

lemma decimalValue_53: "decimalValue (js ''9007199254740992'') = Some 9007199254740992"
  by (simp add: decimalValue_def js_def isSpace_def isDigit_def digitsValue_def)

lemma parseInt_53: "parseInt (js ''9007199254740992'') = Some 9007199254740992"
  using decimalValue_53 by (rule parseInt_exact) simp


section \<open>Insertion into a paragraph\<close>


lemma filter_positions:
  "map (nth xs) (filter (\<lambda>i. P (xs ! i)) [0 ..< length xs]) = filter P xs"
proof -
  have "filter P (map (nth xs) [0 ..< length xs]) = map (nth xs) (filter (P \<circ> nth xs) [0 ..< length xs])"
    by (rule filter_map)
  then show ?thesis by (simp add: map_nth comp_def)
qed

lemma candidates_positions:
  "map (nth (childNodes p)) (candidatePositions p) = getDirectChildAnchorCandidates p"
  by (simp add: candidatePositions_def getDirectChildAnchorCandidates_def filter_positions)

lemma candidatePositions_length:
  "length (candidatePositions p) = length (getDirectChildAnchorCandidates p)"
  by (metis candidates_positions length_map)

lemma candidatePositions_bound:
  "k < length (candidatePositions p) \<Longrightarrow> candidatePositions p ! k < length (childNodes p)"
proof -
  assume "k < length (candidatePositions p)"
  then have "candidatePositions p ! k \<in> set (candidatePositions p)" by simp
  then show ?thesis by (simp add: candidatePositions_def)
qed

lemma candidatePositions_nth:
  "k < length (candidatePositions p) \<Longrightarrow>
     childNodes p ! (candidatePositions p ! k) = getDirectChildAnchorCandidates p ! k"
  by (metis candidates_positions nth_map)

lemma insertBefore_ok:
  "r < length cs \<Longrightarrow> insertBefore cs n r = Inr (take r cs @ n # drop r cs)"
  by (simp add: insertBefore_def)

lemma insertAfter_ok:
  "a < length cs \<Longrightarrow> insertAfter cs n a = Inr (take (Suc a) cs @ n # drop (Suc a) cs)"
  by (auto simp: insertAfter_def insertBefore_def appendChild_def)

lemma wrap_at:
  assumes "pos < length cs"
  shows "(case insertBefore cs s pos of Inl e \<Rightarrow> Inl e
          | Inr cs1 \<Rightarrow> (case insertAfter cs1 e (Suc pos) of Inl x \<Rightarrow> Inl x
             | Inr cs2 \<Rightarrow> (case insertAfter cs2 r (Suc (Suc pos)) of Inl x \<Rightarrow> Inl x
                | Inr cs3 \<Rightarrow> Inr (f cs3))))
         = Inr (f (take pos cs @ [s, cs ! pos, e, r] @ drop (Suc pos) cs))"
proof -
  let ?cs1 = "take pos cs @ s # drop pos cs"
  have l1: "Suc pos < length ?cs1" using assms by simp
  have d: "drop pos cs = cs ! pos # drop (Suc pos) cs"
    using assms by (simp add: Cons_nth_drop_Suc)
  have t1: "take (Suc (Suc pos)) ?cs1 = take pos cs @ [s, cs ! pos]"
    using assms by (simp add: d)
  have d1: "drop (Suc (Suc pos)) ?cs1 = drop (Suc pos) cs"
    using assms by (simp add: d)
  let ?cs2 = "take pos cs @ [s, cs ! pos] @ e # drop (Suc pos) cs"
  have s2: "insertAfter ?cs1 e (Suc pos) = Inr ?cs2"
    using insertAfter_ok [OF l1, of e] by (simp only: t1 d1) simp
  have l2: "Suc (Suc pos) < length ?cs2" using assms by simp
  have t2: "take (Suc (Suc (Suc pos))) ?cs2 = take pos cs @ [s, cs ! pos, e]"
    using assms by simp
  have d2: "drop (Suc (Suc (Suc pos))) ?cs2 = drop (Suc pos) cs"
    using assms by simp
  have s3: "insertAfter ?cs2 r (Suc (Suc pos)) = Inr (take pos cs @ [s, cs ! pos, e, r] @ drop (Suc pos) cs)"
    using insertAfter_ok [OF l2, of r] by (simp only: t2 d2) simp
  show ?thesis
    using assms s2 s3 by (simp add: insertBefore_ok)
qed


lemma contributionLength_eq: "contributionLength el = length (textContribution el)"
  by (simp add: contributionLength_def textContribution_def)

lemma getChildTextLength_eq: "getChildTextLength n = length (getParagraphText n)"
proof -
  have "contributionLength = (\<lambda>el. length (textContribution el))"
    by (rule ext) (rule contributionLength_eq)
  then show ?thesis
    by (simp add: getChildTextLength_def getParagraphText_def length_concat comp_def)
qed

lemma anchorWalk_None:
  "cur \<le> off \<Longrightarrow> anchorWalk cs off i cur = None \<longleftrightarrow>
     cur + sum_list (map (\<lambda>c. max 1 (getChildTextLength c)) cs) \<le> off"
  by (induction cs arbitrary: i cur) (auto simp: Let_def)

lemma anchorWalk_Some:
  "anchorWalk cs off i cur = Some r \<Longrightarrow> cur \<le> off \<Longrightarrow>
     i \<le> r \<and> r - i < length cs \<and>
     cur + sum_list (take (r - i) (map (\<lambda>c. max 1 (getChildTextLength c)) cs)) \<le> off \<and>
     off < cur + sum_list (take (Suc (r - i)) (map (\<lambda>c. max 1 (getChildTextLength c)) cs))"
proof (induction cs arbitrary: i cur)
  case Nil
  then show ?case by simp
next
  case (Cons c cs)
  show ?case
  proof (cases "off < cur + max 1 (getChildTextLength c)")
    case True
    with Cons.prems show ?thesis by (simp add: Let_def)
  next
    case False
    with Cons.prems have w: "anchorWalk cs off (i + 1) (cur + max 1 (getChildTextLength c)) = Some r"
      by (simp add: Let_def)
    from False have le: "cur + max 1 (getChildTextLength c) \<le> off" by simp
    from Cons.IH [OF w le] have ih:
      "i + 1 \<le> r" "r - (i + 1) < length cs"
      "cur + max 1 (getChildTextLength c) +
         sum_list (take (r - (i + 1)) (map (\<lambda>c. max 1 (getChildTextLength c)) cs)) \<le> off"
      "off < cur + max 1 (getChildTextLength c) +
         sum_list (take (Suc (r - (i + 1))) (map (\<lambda>c. max 1 (getChildTextLength c)) cs))"
      by simp_all
    from ih(1) have ri: "r - i = Suc (r - (i + 1))" by simp
    show ?thesis
      using ih by (simp add: ri add.assoc)
  qed
qed

lemma insertCommentAnchor_shape:
  "insertCommentAnchorIntoParagraph paragraph commentId anchorIndex =
     Inr (setChildNodes paragraph
       (if anchorIndex < length (getDirectChildAnchorCandidates paragraph)
        then take (candidatePositions paragraph ! anchorIndex) (childNodes paragraph) @
             [createRangeStart commentId,
              getDirectChildAnchorCandidates paragraph ! anchorIndex,
              createRangeEnd commentId,
              createCommentReferenceRun commentId] @
             drop (Suc (candidatePositions paragraph ! anchorIndex)) (childNodes paragraph)
        else childNodes paragraph @
             [createRangeStart commentId, createSpaceRun, createRangeEnd commentId,
              createCommentReferenceRun commentId]))"
proof (cases "anchorIndex < length (getDirectChildAnchorCandidates paragraph)")
  case True
  then have k: "anchorIndex < length (candidatePositions paragraph)"
    by (simp add: candidatePositions_length)
  have pos: "candidatePositions paragraph ! anchorIndex < length (childNodes paragraph)"
    by (rule candidatePositions_bound [OF k])
  show ?thesis
    using True k
    by (simp add: insertCommentAnchorIntoParagraph_def nthOrNull_def Let_def
        wrap_at [OF pos] candidatePositions_nth [OF k])
next
  case False
  then have k: "\<not> anchorIndex < length (candidatePositions paragraph)"
    by (simp add: candidatePositions_length)
  have pos: "length (childNodes paragraph) < length (appendChild (childNodes paragraph) createSpaceRun)"
    by (simp add: appendChild_def)
  show ?thesis
    using False k
    by (simp add: insertCommentAnchorIntoParagraph_def nthOrNull_def Let_def
        wrap_at [OF pos]) (simp add: appendChild_def)
qed

text \<open>The same result with the inserted nodes written out.\<close>

lemma insertCommentAnchor_explicit:
  "insertCommentAnchorIntoParagraph paragraph commentId anchorIndex =
     Inr (setChildNodes paragraph
       (if anchorIndex < length (getDirectChildAnchorCandidates paragraph)
        then take (candidatePositions paragraph ! anchorIndex) (childNodes paragraph) @
             [Element W_NS ''w'' ''commentRangeStart''
                [Attr W_NS ''w'' ''id'' (String_of_int commentId)] [],
              getDirectChildAnchorCandidates paragraph ! anchorIndex,
              Element W_NS ''w'' ''commentRangeEnd''
                [Attr W_NS ''w'' ''id'' (String_of_int commentId)] [],
              Element W_NS ''w'' ''r'' []
                [Element W_NS ''w'' ''rPr'' []
                   [Element W_NS ''w'' ''rStyle''
                      [Attr W_NS ''w'' ''val'' (js ''CommentReference'')] []],
                 Element W_NS ''w'' ''commentReference''
                   [Attr W_NS ''w'' ''id'' (String_of_int commentId)] []]] @
             drop (Suc (candidatePositions paragraph ! anchorIndex)) (childNodes paragraph)
        else childNodes paragraph @
             [Element W_NS ''w'' ''commentRangeStart''
                [Attr W_NS ''w'' ''id'' (String_of_int commentId)] [],
              Element W_NS ''w'' ''r'' []
                [Element W_NS ''w'' ''t'' [Attr XML_NS ''xml'' ''space'' (js ''preserve'')]
                   [Text [32]]],
              Element W_NS ''w'' ''commentRangeEnd''
                [Attr W_NS ''w'' ''id'' (String_of_int commentId)] [],
              Element W_NS ''w'' ''r'' []
                [Element W_NS ''w'' ''rPr'' []
                   [Element W_NS ''w'' ''rStyle''
                      [Attr W_NS ''w'' ''val'' (js ''CommentReference'')] []],
                 Element W_NS ''w'' ''commentReference''
                   [Attr W_NS ''w'' ''id'' (String_of_int commentId)] []]]))"
  by (simp only: insertCommentAnchor_shape createRangeStart_def createRangeEnd_def
      createCommentReferenceRun_def createSpaceRun_def)

lemma findBestAnchor_range:
  "getDirectChildAnchorCandidates paragraph \<noteq> [] \<Longrightarrow>
     findBestAnchorCandidateIndexForOffset paragraph offset
       < length (getDirectChildAnchorCandidates paragraph)"
proof (cases "anchorWalk (getDirectChildAnchorCandidates paragraph) offset 0 0")
  case None
  assume "getDirectChildAnchorCandidates paragraph \<noteq> []"
  with None show ?thesis by (simp add: findBestAnchorCandidateIndexForOffset_def)
next
  case (Some r)
  assume ne: "getDirectChildAnchorCandidates paragraph \<noteq> []"
  from anchorWalk_Some [OF Some] have "r < length (getDirectChildAnchorCandidates paragraph)"
    by simp
  with ne Some show ?thesis by (simp add: findBestAnchorCandidateIndexForOffset_def)
qed

text \<open>
  Claim C10. The offset-to-child mapping is total and in range. With the candidates' weights
  \<open>max(1, text length)\<close>: a paragraph without candidates gives index 0; otherwise the index
  is one of the candidate list; an offset below the total weight gives the index whose span
  contains it; an offset at or beyond the total gives the last index. The text length of a
  child is the length of its extracted text. Insertion returns a paragraph for every index, and
  for an index past the candidate list the paragraph ends with the range start, a new run
  \<open>w:r\<close> holding one \<open>w:t\<close> with \<open>xml:space="preserve"\<close> and the text of a single space, the
  range end and the reference run; a paragraph made of that run has the text of one space.
\<close>

theorem anchor_index_total:
  "(getDirectChildAnchorCandidates paragraph = [] \<longrightarrow>
      findBestAnchorCandidateIndexForOffset paragraph offset = 0) \<and>
   (getDirectChildAnchorCandidates paragraph \<noteq> [] \<longrightarrow>
      findBestAnchorCandidateIndexForOffset paragraph offset
        < length (getDirectChildAnchorCandidates paragraph)) \<and>
   (offset < sum_list (map (\<lambda>c. max 1 (getChildTextLength c))
                        (getDirectChildAnchorCandidates paragraph)) \<longrightarrow>
      sum_list (take (findBestAnchorCandidateIndexForOffset paragraph offset)
                  (map (\<lambda>c. max 1 (getChildTextLength c))
                     (getDirectChildAnchorCandidates paragraph))) \<le> offset \<and>
      offset < sum_list (take (Suc (findBestAnchorCandidateIndexForOffset paragraph offset))
                  (map (\<lambda>c. max 1 (getChildTextLength c))
                     (getDirectChildAnchorCandidates paragraph)))) \<and>
   (sum_list (map (\<lambda>c. max 1 (getChildTextLength c))
                (getDirectChildAnchorCandidates paragraph)) \<le> offset \<longrightarrow>
      findBestAnchorCandidateIndexForOffset paragraph offset =
        length (getDirectChildAnchorCandidates paragraph) - 1) \<and>
   (\<forall>c. getChildTextLength c = length (getParagraphText c)) \<and>
   (\<exists>p'. insertCommentAnchorIntoParagraph paragraph commentId anchorIndex = Inr p') \<and>
   (length (getDirectChildAnchorCandidates paragraph) \<le> anchorIndex \<longrightarrow>
      insertCommentAnchorIntoParagraph paragraph commentId anchorIndex =
        Inr (setChildNodes paragraph
               (childNodes paragraph @
                [Element W_NS ''w'' ''commentRangeStart''
                   [Attr W_NS ''w'' ''id'' (String_of_int commentId)] [],
                 Element W_NS ''w'' ''r'' []
                   [Element W_NS ''w'' ''t'' [Attr XML_NS ''xml'' ''space'' (js ''preserve'')]
                      [Text [32]]],
                 Element W_NS ''w'' ''commentRangeEnd''
                   [Attr W_NS ''w'' ''id'' (String_of_int commentId)] [],
                 Element W_NS ''w'' ''r'' []
                   [Element W_NS ''w'' ''rPr'' []
                      [Element W_NS ''w'' ''rStyle''
                         [Attr W_NS ''w'' ''val'' (js ''CommentReference'')] []],
                    Element W_NS ''w'' ''commentReference''
                      [Attr W_NS ''w'' ''id'' (String_of_int commentId)] []]]))) \<and>
   getParagraphText
     (Element W_NS ''w'' ''p'' []
        [Element W_NS ''w'' ''r'' []
           [Element W_NS ''w'' ''t'' [Attr XML_NS ''xml'' ''space'' (js ''preserve'')]
              [Text [32]]]]) = [32]"
proof -
  let ?cands = "getDirectChildAnchorCandidates paragraph"
  let ?ws = "map (\<lambda>c. max 1 (getChildTextLength c)) ?cands"
  let ?i = "findBestAnchorCandidateIndexForOffset paragraph offset"
  have c1: "?cands = [] \<longrightarrow> ?i = 0"
    by (simp add: findBestAnchorCandidateIndexForOffset_def)
  have c2: "?cands \<noteq> [] \<longrightarrow> ?i < length ?cands"
  proof
    assume ne: "?cands \<noteq> []"
    show "?i < length ?cands"
    proof (cases "anchorWalk ?cands offset 0 0")
      case None
      with ne show ?thesis by (simp add: findBestAnchorCandidateIndexForOffset_def)
    next
      case (Some r)
      from anchorWalk_Some [OF Some] have "r < length ?cands" by simp
      with ne Some show ?thesis by (simp add: findBestAnchorCandidateIndexForOffset_def)
    qed
  qed
  have c3: "offset < sum_list ?ws \<longrightarrow>
      sum_list (take ?i ?ws) \<le> offset \<and> offset < sum_list (take (Suc ?i) ?ws)"
  proof
    assume lt: "offset < sum_list ?ws"
    then have ne: "?cands \<noteq> []" by auto
    from lt have "anchorWalk ?cands offset 0 0 \<noteq> None"
      using anchorWalk_None [of 0 offset ?cands 0] by simp
    then obtain r where r: "anchorWalk ?cands offset 0 0 = Some r" by auto
    from ne r have i: "?i = r" by (simp add: findBestAnchorCandidateIndexForOffset_def)
    from anchorWalk_Some [OF r] show
      "sum_list (take ?i ?ws) \<le> offset \<and> offset < sum_list (take (Suc ?i) ?ws)"
      by (simp add: i)
  qed
  have c4: "sum_list ?ws \<le> offset \<longrightarrow> ?i = length ?cands - 1"
  proof
    assume "sum_list ?ws \<le> offset"
    then have "anchorWalk ?cands offset 0 0 = None"
      using anchorWalk_None [of 0 offset ?cands 0] by simp
    then show "?i = length ?cands - 1"
      by (simp add: findBestAnchorCandidateIndexForOffset_def Let_def)
  qed
  have c5: "\<forall>c. getChildTextLength c = length (getParagraphText c)"
    by (simp add: getChildTextLength_eq)
  have ins: "insertCommentAnchorIntoParagraph paragraph commentId anchorIndex =
     Inr (setChildNodes paragraph
       (if anchorIndex < length ?cands
        then take (candidatePositions paragraph ! anchorIndex) (childNodes paragraph) @
             [createRangeStart commentId, ?cands ! anchorIndex, createRangeEnd commentId,
              createCommentReferenceRun commentId] @
             drop (Suc (candidatePositions paragraph ! anchorIndex)) (childNodes paragraph)
        else childNodes paragraph @
             [createRangeStart commentId, createSpaceRun, createRangeEnd commentId,
              createCommentReferenceRun commentId]))"
    by (rule insertCommentAnchor_shape)
  have c6: "\<exists>p'. insertCommentAnchorIntoParagraph paragraph commentId anchorIndex = Inr p'"
    using ins by blast
  have c7: "length ?cands \<le> anchorIndex \<longrightarrow>
      insertCommentAnchorIntoParagraph paragraph commentId anchorIndex =
        Inr (setChildNodes paragraph
               (childNodes paragraph @
                [Element W_NS ''w'' ''commentRangeStart''
                   [Attr W_NS ''w'' ''id'' (String_of_int commentId)] [],
                 Element W_NS ''w'' ''r'' []
                   [Element W_NS ''w'' ''t'' [Attr XML_NS ''xml'' ''space'' (js ''preserve'')]
                      [Text [32]]],
                 Element W_NS ''w'' ''commentRangeEnd''
                   [Attr W_NS ''w'' ''id'' (String_of_int commentId)] [],
                 Element W_NS ''w'' ''r'' []
                   [Element W_NS ''w'' ''rPr'' []
                      [Element W_NS ''w'' ''rStyle''
                         [Attr W_NS ''w'' ''val'' (js ''CommentReference'')] []],
                    Element W_NS ''w'' ''commentReference''
                      [Attr W_NS ''w'' ''id'' (String_of_int commentId)] []]]))"
    using insertCommentAnchor_explicit [of "paragraph" commentId anchorIndex] by simp
  have c8: "getParagraphText
     (Element W_NS ''w'' ''p'' []
        [Element W_NS ''w'' ''r'' []
           [Element W_NS ''w'' ''t'' [Attr XML_NS ''xml'' ''space'' (js ''preserve'')]
              [Text [32]]]]) = [32]"
    by (simp add: getParagraphText_def descendantElements_def textContribution_def)
  from c1 c2 c3 c4 c5 c6 c7 c8 show ?thesis by blast
qed

theorem anchor_index_total_witness:
  "getDirectChildAnchorCandidates sampleParagraph \<noteq> [] \<and>
   findBestAnchorCandidateIndexForOffset sampleParagraph 2 = 1 \<and>
   findBestAnchorCandidateIndexForOffset sampleParagraph 7 = 1 \<and>
   getDirectChildAnchorCandidates emptyParagraph = [] \<and>
   findBestAnchorCandidateIndexForOffset emptyParagraph 7 = 0 \<and>
   insertCommentAnchorIntoParagraph emptyParagraph 4 0 =
     Inr (Element W_NS ''w'' ''p'' []
       [Element W_NS ''w'' ''pPr'' [] [],
        Element W_NS ''w'' ''commentRangeStart'' [Attr W_NS ''w'' ''id'' (js ''4'')] [],
        Element W_NS ''w'' ''r'' []
          [Element W_NS ''w'' ''t'' [Attr XML_NS ''xml'' ''space'' (js ''preserve'')]
             [Text [32]]],
        Element W_NS ''w'' ''commentRangeEnd'' [Attr W_NS ''w'' ''id'' (js ''4'')] [],
        Element W_NS ''w'' ''r'' []
          [Element W_NS ''w'' ''rPr'' []
             [Element W_NS ''w'' ''rStyle''
                [Attr W_NS ''w'' ''val'' (js ''CommentReference'')] []],
           Element W_NS ''w'' ''commentReference'' [Attr W_NS ''w'' ''id'' (js ''4'')] []]])"
proof -
  have cands: "getDirectChildAnchorCandidates sampleParagraph =
      [Element W_NS ''w'' ''r'' [] [Element W_NS ''w'' ''t'' [] [Text (js ''ab'')]],
       Element W_NS ''w'' ''r'' [] [Element W_NS ''w'' ''tab'' [] []]]"
    by (simp add: getDirectChildAnchorCandidates_def sampleParagraph_def isAnchorCandidate_def
        elementGetElementsByTagNameNS_def descendantElements_def)
  have ws: "map (\<lambda>c. max 1 (getChildTextLength c)) (getDirectChildAnchorCandidates sampleParagraph)
      = [2, 1]"
    by (simp add: cands getChildTextLength_def descendantElements_def contributionLength_def
        js_def)
  have e: "getDirectChildAnchorCandidates emptyParagraph = []"
    by (simp add: getDirectChildAnchorCandidates_def emptyParagraph_def isAnchorCandidate_def)
  have a: "findBestAnchorCandidateIndexForOffset sampleParagraph 2 = 1"
  proof -
    let ?i = "findBestAnchorCandidateIndexForOffset sampleParagraph 2"
    note t = anchor_index_total [of sampleParagraph 2 0 0, unfolded ws]
    from t have r: "sum_list (take ?i [2, 1]) \<le> (2::nat) \<and> 2 < sum_list (take (Suc ?i) [2, 1::nat])"
      by simp
    show ?thesis
    proof (cases "?i")
      case 0
      with r show ?thesis by simp
    next
      case (Suc n)
      with r show ?thesis by (cases n) simp_all
    qed
  qed
  have b: "findBestAnchorCandidateIndexForOffset sampleParagraph 7 = 1"
  proof -
    note t = anchor_index_total [of sampleParagraph 7 0 0, unfolded ws]
    from t show ?thesis by (simp add: cands)
  qed
  have s4: "String_of_int 4 = js ''4''"
    by (simp add: String_of_int_def numberString_def digitsOf.simps js_def)
  have c: "findBestAnchorCandidateIndexForOffset emptyParagraph 7 = 0"
    using anchor_index_total [of emptyParagraph 7 0 0] by (simp add: e)
  have d: "insertCommentAnchorIntoParagraph emptyParagraph 4 0 =
     Inr (Element W_NS ''w'' ''p'' []
       [Element W_NS ''w'' ''pPr'' [] [],
        Element W_NS ''w'' ''commentRangeStart'' [Attr W_NS ''w'' ''id'' (js ''4'')] [],
        Element W_NS ''w'' ''r'' []
          [Element W_NS ''w'' ''t'' [Attr XML_NS ''xml'' ''space'' (js ''preserve'')]
             [Text [32]]],
        Element W_NS ''w'' ''commentRangeEnd'' [Attr W_NS ''w'' ''id'' (js ''4'')] [],
        Element W_NS ''w'' ''r'' []
          [Element W_NS ''w'' ''rPr'' []
             [Element W_NS ''w'' ''rStyle''
                [Attr W_NS ''w'' ''val'' (js ''CommentReference'')] []],
           Element W_NS ''w'' ''commentReference'' [Attr W_NS ''w'' ''id'' (js ''4'')] []]])"
    using anchor_index_total [of emptyParagraph 7 4 0]
    by (simp add: e s4) (simp add: emptyParagraph_def)
  from cands a b c d e show ?thesis by simp
qed


section \<open>Manifest fix-ups\<close>


















subsection \<open>The lookup by qualified name and the lookup by namespace\<close>

















section \<open>Normalised text and blank anchors\<close>

text \<open>
  Claim C3, at the text \<open>" a"\<close>. The normalised string is \<open>"a"\<close>, of one character, and
  the index map is \<open>[0, 1]\<close>: trimming the normalised string drops the leading space, the map
  keeps the entry of that space, so the map has two entries for one character and entry 0 is
  the offset of the space, not of the \<open>a\<close> at offset 1.
\<close>

theorem normalize_indexMap_misaligned:
  "normalizeForFuzzyIndexing toLowerCaseUnit (js '' a'') = (js ''a'', [0, 1])"
  by (simp add: normalizeForFuzzyIndexing_def js_def isSpace_def foldQuotes_def
      toLowerCaseUnit_def trim_def)

lemma dropWhile_all_iff: "(\<forall>c \<in> set (dropWhile P s). P c) \<longleftrightarrow> (\<forall>c \<in> set s. P c)"
  by (induction s) auto

lemma trim_empty_iff: "trim s = [] \<longleftrightarrow> (\<forall>c \<in> set s. isSpace c)"
  by (simp add: trim_def dropWhile_all_iff)

lemma replaceWhitespaceRuns_spaces:
  assumes "\<forall>c \<in> set s. isSpace c"
  shows "replaceWhitespaceRuns s = [] \<or> replaceWhitespaceRuns s = [32]"
proof (cases s)
  case Nil
  then show ?thesis by simp
next
  case (Cons c cs)
  with assms have c: "isSpace c" and d: "dropWhile isSpace cs = []"
    by simp_all
  have "replaceWhitespaceRuns (c # cs) = [32]"
    by (simp only: replaceWhitespaceRuns.simps c d if_True)
  with Cons show ?thesis by simp
qed

lemma cleanAnchorText_blank:
  assumes "trim anchor = []"
  shows "cleanAnchorText anchor = []"
proof -
  from assms have "\<forall>c \<in> set anchor. isSpace c" by (simp add: trim_empty_iff)
  then have "replaceWhitespaceRuns anchor = [] \<or> replaceWhitespaceRuns anchor = [32]"
    by (rule replaceWhitespaceRuns_spaces)
  then show ?thesis
    by (auto simp: cleanAnchorText_def trim_def isSpace_def)
qed

text \<open>
  Claim C6. For a record whose anchor text is empty or only whitespace (or missing, or a null
  record), \<open>findBestParagraphMatch\<close> returns index \<open>-1\<close> with score 0, and the iteration
  for the record returns, without an error, the state it started from: both trees, the next
  comment id, \<open>mergedCount\<close> and the details are unchanged.
\<close>

theorem blank_anchor_skipped:
  assumes "trim (case anchor_text it of None \<Rightarrow> [] | Some v \<Rightarrow> v) = []"
  shows "findBestParagraphMatch pr (paragraphs s) paragraphTexts
           (case anchor_text it of None \<Rightarrow> [] | Some v \<Rightarrow> v) =
           \<lparr>bestIndex = - 1, bestScore = 0, bestMethod = ''partial_ratio''\<rparr> \<and>
         mergeStep lc pr nowIso paragraphTexts s i (Some it) = Inr s \<and>
         mergeStep lc pr nowIso paragraphTexts s i None = Inr s"
proof -
  let ?a = "case anchor_text it of None \<Rightarrow> [] | Some v \<Rightarrow> v"
  have c: "cleanAnchorText ?a = []" using assms by (rule cleanAnchorText_blank)
  then have m: "findBestParagraphMatch pr (paragraphs s) paragraphTexts ?a =
      \<lparr>bestIndex = - 1, bestScore = 0, bestMethod = ''partial_ratio''\<rparr>"
    by (simp add: findBestParagraphMatch_def)
  then have st: "mergeStep lc pr nowIso paragraphTexts s i (Some it) = Inr s"
    by (simp add: mergeStep_def Let_def)
  have "cleanAnchorText [] = []" by (simp add: cleanAnchorText_def trim_def)
  then have "findBestParagraphMatch pr (paragraphs s) paragraphTexts [] =
      \<lparr>bestIndex = - 1, bestScore = 0, bestMethod = ''partial_ratio''\<rparr>"
    by (simp add: findBestParagraphMatch_def)
  then have "mergeStep lc pr nowIso paragraphTexts s i None = Inr s"
    by (simp add: mergeStep_def Let_def emptyItem_def)
  with m st show ?thesis by simp
qed

theorem blank_anchor_skipped_witness:
  "trim (case anchor_text blankItem of None \<Rightarrow> [] | Some v \<Rightarrow> v) = [] \<and>
   mergeStep toLowerCaseUnit exactRatio (js ''now'') [getParagraphText foxParagraph]
     (initialState [foxParagraph] sampleComments) 0 (Some blankItem) =
     Inr (initialState [foxParagraph] sampleComments)"
proof -
  have h: "trim (case anchor_text blankItem of None \<Rightarrow> [] | Some v \<Rightarrow> v) = []"
    by (simp add: blankItem_def trim_def js_def isSpace_def)
  from blank_anchor_skipped [OF h] h show ?thesis by blast
qed

section \<open>The window scan\<close>


lemma slice_nonempty: "0 < w \<Longrightarrow> slice s p (p + w) \<noteq> [] \<longleftrightarrow> p < length s"
  by (auto simp: slice_def)

lemma scan_step_positions:
  assumes "isScanPosition para p" "p < pos + 5" "pos mod 5 = 0"
  shows "p < pos \<or> p = pos"
proof -
  from assms(1) have "p mod 5 = 0" by (simp add: isScanPosition_def)
  with assms(2,3) show ?thesis by presburger
qed

lemma scanInv_keep:
  assumes inv: "scanInv pr nd para wl pos bs bp"
    and m: "pos mod 5 = 0"
    and le: "\<not> windowScore pr nd para wl pos > bs"
  shows "scanInv pr nd para wl (pos + 5) bs bp"
proof -
  have upto: "windowScore pr nd para wl p \<le> bs"
    if b: "\<forall>p. isScanPosition para p \<and> p < pos \<longrightarrow> windowScore pr nd para wl p \<le> bs"
      and p: "isScanPosition para p" "p < pos + 5" for p
  proof -
    from scan_step_positions [OF p m] show ?thesis
    proof
      assume "p < pos" with b p show ?thesis by blast
    next
      assume "p = pos" with le show ?thesis by simp
    qed
  qed
  from inv have bs: "bs < 98" by (simp add: scanInv_def)
  from inv consider
    (none) "bp = - 1" "bs = 0"
      "\<forall>p. isScanPosition para p \<and> p < pos \<longrightarrow> windowScore pr nd para wl p \<le> 0"
  | (some) "0 \<le> bp" "isScanPosition para (nat bp)" "nat bp < pos"
      "bs = windowScore pr nd para wl (nat bp)" "0 < bs"
      "\<forall>p. isScanPosition para p \<and> p < nat bp \<longrightarrow> windowScore pr nd para wl p < bs"
      "\<forall>p. isScanPosition para p \<and> p < pos \<longrightarrow> windowScore pr nd para wl p \<le> bs"
    unfolding scanInv_def by blast
  then show ?thesis
  proof cases
    case none
    have "\<forall>p. isScanPosition para p \<and> p < pos + 5 \<longrightarrow> windowScore pr nd para wl p \<le> 0"
      using upto none(2,3) by blast
    with none(1,2) bs show ?thesis unfolding scanInv_def by blast
  next
    case some
    have "\<forall>p. isScanPosition para p \<and> p < pos + 5 \<longrightarrow> windowScore pr nd para wl p \<le> bs"
      using upto some(7) by blast
    moreover have "nat bp < pos + 5" using some(3) by simp
    ultimately show ?thesis
      unfolding scanInv_def using some(1,2,4,5,6) bs by blast
  qed
qed

lemma scanInv_before:
  assumes inv: "scanInv pr nd para wl pos bs bp"
    and gt: "windowScore pr nd para wl pos > bs"
  shows "0 < windowScore pr nd para wl pos"
    "\<forall>p. isScanPosition para p \<and> p < pos \<longrightarrow>
       windowScore pr nd para wl p < windowScore pr nd para wl pos \<and>
       windowScore pr nd para wl p < 98"
proof -
  from inv have bs: "bs < 98" "0 \<le> bs"
    and b: "\<forall>p. isScanPosition para p \<and> p < pos \<longrightarrow> windowScore pr nd para wl p \<le> bs"
    unfolding scanInv_def by auto
  from gt bs show "0 < windowScore pr nd para wl pos" by simp
  show "\<forall>p. isScanPosition para p \<and> p < pos \<longrightarrow>
       windowScore pr nd para wl p < windowScore pr nd para wl pos \<and>
       windowScore pr nd para wl p < 98"
  proof (intro allI impI)
    fix p assume "isScanPosition para p \<and> p < pos"
    with b have "windowScore pr nd para wl p \<le> bs" by blast
    with gt bs show "windowScore pr nd para wl p < windowScore pr nd para wl pos \<and>
       windowScore pr nd para wl p < 98" by simp
  qed
qed

lemma scanInv_better:
  assumes inv: "scanInv pr nd para wl pos bs bp"
    and m: "pos mod 5 = 0" and len: "pos < length para"
    and gt: "windowScore pr nd para wl pos > bs"
    and small: "\<not> windowScore pr nd para wl pos \<ge> 98"
  shows "scanInv pr nd para wl (pos + 5) (windowScore pr nd para wl pos) (int pos)"
proof -
  note bf = scanInv_before [OF inv gt]
  have here: "isScanPosition para pos" using m len by (simp add: isScanPosition_def)
  have upto: "\<forall>p. isScanPosition para p \<and> p < pos + 5 \<longrightarrow>
      windowScore pr nd para wl p \<le> windowScore pr nd para wl pos"
  proof (intro allI impI)
    fix p assume p: "isScanPosition para p \<and> p < pos + 5"
    then have pa: "isScanPosition para p" and pb: "p < pos + 5" by simp_all
    have "p < pos \<or> p = pos" by (rule scan_step_positions [OF pa pb m])
    then show "windowScore pr nd para wl p \<le> windowScore pr nd para wl pos"
    proof
      assume "p < pos" with p bf(2) have "windowScore pr nd para wl p < windowScore pr nd para wl pos"
        by blast
      then show ?thesis by simp
    next
      assume "p = pos" then show ?thesis by simp
    qed
  qed
  have before: "\<forall>p. isScanPosition para p \<and> p < pos \<longrightarrow>
      windowScore pr nd para wl p < windowScore pr nd para wl pos"
    using bf(2) by blast
  have lt98: "windowScore pr nd para wl pos < 98" using small by simp
  have nn: "0 \<le> int pos" by simp
  have lt5: "pos < pos + 5" by simp
  have "0 \<le> int pos \<and> isScanPosition para pos \<and> pos < pos + 5 \<and>
       windowScore pr nd para wl pos = windowScore pr nd para wl pos \<and>
       0 < windowScore pr nd para wl pos \<and>
       (\<forall>p. isScanPosition para p \<and> p < pos \<longrightarrow>
          windowScore pr nd para wl p < windowScore pr nd para wl pos) \<and>
       (\<forall>p. isScanPosition para p \<and> p < pos + 5 \<longrightarrow>
          windowScore pr nd para wl p \<le> windowScore pr nd para wl pos)"
    using nn here lt5 bf(1) before upto by blast
  with lt98 show ?thesis
    unfolding scanInv_def nat_int by blast
qed

lemma scanInv_exit:
  assumes inv: "scanInv pr nd para wl pos bs bp" and len: "\<not> pos < length para"
  shows "(bp = - 1 \<and> bs = 0 \<and>
          (\<forall>p. isScanPosition para p \<longrightarrow> windowScore pr nd para wl p \<le> 0)) \<or>
         (0 \<le> bp \<and> isScanPosition para (nat bp) \<and>
          bs = windowScore pr nd para wl (nat bp) \<and> 0 < bs \<and>
          (\<forall>p. isScanPosition para p \<and> p < nat bp \<longrightarrow>
             windowScore pr nd para wl p < bs \<and> windowScore pr nd para wl p < 98) \<and>
          (bs < 98 \<longrightarrow> (\<forall>p. isScanPosition para p \<longrightarrow> windowScore pr nd para wl p \<le> bs)))"
proof -
  have all: "p < pos" if "isScanPosition para p" for p
    using that len by (simp add: isScanPosition_def)
  from inv have bs: "bs < 98" by (simp add: scanInv_def)
  from inv consider
    (none) "bp = - 1" "bs = 0"
      "\<forall>p. isScanPosition para p \<and> p < pos \<longrightarrow> windowScore pr nd para wl p \<le> 0"
  | (some) "0 \<le> bp" "isScanPosition para (nat bp)" "nat bp < pos"
      "bs = windowScore pr nd para wl (nat bp)" "0 < bs"
      "\<forall>p. isScanPosition para p \<and> p < nat bp \<longrightarrow> windowScore pr nd para wl p < bs"
      "\<forall>p. isScanPosition para p \<and> p < pos \<longrightarrow> windowScore pr nd para wl p \<le> bs"
    unfolding scanInv_def by blast
  then show ?thesis
  proof cases
    case none
    have "\<forall>p. isScanPosition para p \<longrightarrow> windowScore pr nd para wl p \<le> 0"
      using none(3) all by blast
    with none(1,2) show ?thesis by blast
  next
    case some
    have a: "\<forall>p. isScanPosition para p \<longrightarrow> windowScore pr nd para wl p \<le> bs"
      using some(7) all by blast
    have b: "\<forall>p. isScanPosition para p \<and> p < nat bp \<longrightarrow>
             windowScore pr nd para wl p < bs \<and> windowScore pr nd para wl p < 98"
    proof (intro allI impI)
      fix p assume "isScanPosition para p \<and> p < nat bp"
      with some(6) have "windowScore pr nd para wl p < bs" by blast
      with bs show "windowScore pr nd para wl p < bs \<and> windowScore pr nd para wl p < 98" by simp
    qed
    from a b some(1,2,4,5) show ?thesis by blast
  qed
qed

lemma scanLoop_post:
  assumes "0 < wl" "pos mod 5 = 0" "scanInv pr nd para wl pos bs bp"
    and "scanLoop pr nd para wl pos bs bp = (rs, rp)"
  shows "(rp = - 1 \<and> rs = 0 \<and>
          (\<forall>p. isScanPosition para p \<longrightarrow> windowScore pr nd para wl p \<le> 0)) \<or>
         (0 \<le> rp \<and> isScanPosition para (nat rp) \<and>
          rs = windowScore pr nd para wl (nat rp) \<and> 0 < rs \<and>
          (\<forall>p. isScanPosition para p \<and> p < nat rp \<longrightarrow>
             windowScore pr nd para wl p < rs \<and> windowScore pr nd para wl p < 98) \<and>
          (rs < 98 \<longrightarrow> (\<forall>p. isScanPosition para p \<longrightarrow> windowScore pr nd para wl p \<le> rs)))"
  using assms
proof (induction pr nd para wl pos bs bp rule: scanLoop.induct)
  case (1 pr nd para wl pos bs bp)
  have sw: "windowScore pr nd para wl pos = pr nd (slice para pos (pos + wl))"
    by (simp add: windowScore_def)
  show ?case
  proof (cases "pos < length para")
    case False
    then have "scanLoop pr nd para wl pos bs bp = (bs, bp)"
      using "1.prems"(1) by (simp add: scanLoop.simps [of pr nd para wl pos] slice_nonempty)
    with "1.prems"(4) have res: "rs = bs" "rp = bp" by simp_all
    show ?thesis unfolding res by (rule scanInv_exit [OF "1.prems"(3) False])
  next
    case True
    then have c1: "pos \<le> length para - 1" by simp
    have c2: "slice para pos (pos + wl) \<noteq> []"
      using True "1.prems"(1) by (simp add: slice_nonempty)
    have m5: "(pos + 5) mod 5 = 0" using "1.prems"(2) by presburger
    show ?thesis
    proof (cases "windowScore pr nd para wl pos > bs")
      case gt: True
      show ?thesis
      proof (cases "windowScore pr nd para wl pos \<ge> 98")
        case big: True
        have "scanLoop pr nd para wl pos bs bp = (windowScore pr nd para wl pos, int pos)"
          using c1 c2 gt big by (simp add: scanLoop.simps [of pr nd para wl pos] sw)
        with "1.prems"(4) have res: "rs = windowScore pr nd para wl pos" "rp = int pos"
          by simp_all
        note bf = scanInv_before [OF "1.prems"(3) gt]
        have here: "isScanPosition para pos"
          using True "1.prems"(2) by (simp add: isScanPosition_def)
        have nn: "0 \<le> int pos" by simp
        have n98: "\<not> windowScore pr nd para wl pos < 98" using big by simp
        have "0 \<le> int pos \<and> isScanPosition para pos \<and>
          windowScore pr nd para wl pos = windowScore pr nd para wl pos \<and>
          0 < windowScore pr nd para wl pos \<and>
          (\<forall>p. isScanPosition para p \<and> p < pos \<longrightarrow>
             windowScore pr nd para wl p < windowScore pr nd para wl pos \<and>
             windowScore pr nd para wl p < 98) \<and>
          (windowScore pr nd para wl pos < 98 \<longrightarrow>
             (\<forall>p. isScanPosition para p \<longrightarrow>
                windowScore pr nd para wl p \<le> windowScore pr nd para wl pos))"
          using nn here bf n98 by blast
        then show ?thesis unfolding res nat_int by (rule disjI2)
      next
        case small: False
        have "scanLoop pr nd para wl pos bs bp =
            scanLoop pr nd para wl (pos + 5) (windowScore pr nd para wl pos) (int pos)"
          using c1 c2 gt small by (simp add: scanLoop.simps [of pr nd para wl pos] sw)
        with "1.prems"(4) have call:
          "scanLoop pr nd para wl (pos + 5) (windowScore pr nd para wl pos) (int pos) = (rs, rp)"
          by simp
        have inv: "scanInv pr nd para wl (pos + 5) (windowScore pr nd para wl pos) (int pos)"
          by (rule scanInv_better [OF "1.prems"(3,2) True gt small])
        show ?thesis
          by (rule "1.IH"(1) [folded sw, OF c1 c2 gt small "1.prems"(1) m5 inv call])
      qed
    next
      case le: False
      have "scanLoop pr nd para wl pos bs bp = scanLoop pr nd para wl (pos + 5) bs bp"
        using c1 c2 le by (simp add: scanLoop.simps [of pr nd para wl pos] sw)
      with "1.prems"(4) have call: "scanLoop pr nd para wl (pos + 5) bs bp = (rs, rp)"
        by simp
      have inv: "scanInv pr nd para wl (pos + 5) bs bp"
        by (rule scanInv_keep [OF "1.prems"(3,2) le])
      show ?thesis
        by (rule "1.IH"(2) [folded sw, OF c1 c2 le "1.prems"(1) m5 inv call])
    qed
  qed
qed


lemma scanInv_start: "scanInv pr nd para wl 0 0 (- 1)"
  by (simp add: scanInv_def)

text \<open>
  Claim C7, the window length. For a normalised anchor of 230 characters the window is 220
  characters long, the length of the capped sample, while \<open>clamp(anchorLength, 80, 260)\<close>
  is 230.
\<close>

theorem fuzzy_window_length_counterexample:
  "windowLenOf (scanNeedleOf (replicate 230 97)) = 220 \<and>
   min (max (length (replicate 230 (97::nat))) 80) 260 = (230::nat)"
  by (simp add: windowLenOf_def scanNeedleOf_def)

text \<open>
  Claim C7, amended. The sample is the first 220 characters of the normalised anchor and the
  window length is \<open>clamp(sampleLength, 80, 260)\<close>, which lies between 80 and 220. The scan
  visits the positions 0, 5, 10, ... below the paragraph length and scores the window at each
  against the sample. It returns either no position, when no window scores above 0, or the
  first position whose window has the best score: every earlier window scores less than it
  and less than 98, and unless its score is 98 or more no window at all scores more. The
  position is accepted exactly when its score is at least 60.
\<close>

theorem fuzzy_window_scan:
  "scanNeedleOf normAnchor = take 220 normAnchor \<and>
   windowLenOf (scanNeedleOf normAnchor) = min (max (min (length normAnchor) 220) 80) 260 \<and>
   80 \<le> windowLenOf (scanNeedleOf normAnchor) \<and>
   windowLenOf (scanNeedleOf normAnchor) \<le> 220 \<and>
   (\<forall>rs rp.
      scanLoop pr (scanNeedleOf normAnchor) normPara (windowLenOf (scanNeedleOf normAnchor))
        0 0 (- 1) = (rs, rp) \<longrightarrow>
      ((rp = - 1 \<and> rs = 0 \<and>
        (\<forall>p. isScanPosition normPara p \<longrightarrow>
           windowScore pr (scanNeedleOf normAnchor) normPara
             (windowLenOf (scanNeedleOf normAnchor)) p \<le> 0)) \<or>
       (0 \<le> rp \<and> isScanPosition normPara (nat rp) \<and>
        rs = windowScore pr (scanNeedleOf normAnchor) normPara
               (windowLenOf (scanNeedleOf normAnchor)) (nat rp) \<and>
        0 < rs \<and>
        (\<forall>p. isScanPosition normPara p \<and> p < nat rp \<longrightarrow>
           windowScore pr (scanNeedleOf normAnchor) normPara
             (windowLenOf (scanNeedleOf normAnchor)) p < rs \<and>
           windowScore pr (scanNeedleOf normAnchor) normPara
             (windowLenOf (scanNeedleOf normAnchor)) p < 98) \<and>
        (rs < 98 \<longrightarrow>
           (\<forall>p. isScanPosition normPara p \<longrightarrow>
              windowScore pr (scanNeedleOf normAnchor) normPara
                (windowLenOf (scanNeedleOf normAnchor)) p \<le> rs)))) \<and>
      fuzzyScan pr normAnchor normPara normToOrig =
        (if 0 \<le> rp \<and> 60 \<le> rs then nthOrNull normToOrig (nat rp) else None))"
proof -
  let ?nd = "scanNeedleOf normAnchor"
  let ?wl = "windowLenOf ?nd"
  have a: "?nd = take 220 normAnchor" by (simp add: scanNeedleOf_def)
  have b: "?wl = min (max (min (length normAnchor) 220) 80) 260"
    by (simp add: windowLenOf_def a)
  have c: "80 \<le> ?wl" "?wl \<le> 220" by (simp_all add: b)
  have wl: "0 < ?wl" using c(1) by simp
  have d: "\<forall>rs rp. scanLoop pr ?nd normPara ?wl 0 0 (- 1) = (rs, rp) \<longrightarrow>
      ((rp = - 1 \<and> rs = 0 \<and>
        (\<forall>p. isScanPosition normPara p \<longrightarrow> windowScore pr ?nd normPara ?wl p \<le> 0)) \<or>
       (0 \<le> rp \<and> isScanPosition normPara (nat rp) \<and>
        rs = windowScore pr ?nd normPara ?wl (nat rp) \<and> 0 < rs \<and>
        (\<forall>p. isScanPosition normPara p \<and> p < nat rp \<longrightarrow>
           windowScore pr ?nd normPara ?wl p < rs \<and> windowScore pr ?nd normPara ?wl p < 98) \<and>
        (rs < 98 \<longrightarrow>
           (\<forall>p. isScanPosition normPara p \<longrightarrow> windowScore pr ?nd normPara ?wl p \<le> rs)))) \<and>
      fuzzyScan pr normAnchor normPara normToOrig =
        (if 0 \<le> rp \<and> 60 \<le> rs then nthOrNull normToOrig (nat rp) else None)"
  proof (intro allI impI conjI)
    fix rs rp
    assume r: "scanLoop pr ?nd normPara ?wl 0 0 (- 1) = (rs, rp)"
    have z: "(0::nat) mod 5 = 0" by simp
    show "(rp = - 1 \<and> rs = 0 \<and>
        (\<forall>p. isScanPosition normPara p \<longrightarrow> windowScore pr ?nd normPara ?wl p \<le> 0)) \<or>
       (0 \<le> rp \<and> isScanPosition normPara (nat rp) \<and>
        rs = windowScore pr ?nd normPara ?wl (nat rp) \<and> 0 < rs \<and>
        (\<forall>p. isScanPosition normPara p \<and> p < nat rp \<longrightarrow>
           windowScore pr ?nd normPara ?wl p < rs \<and> windowScore pr ?nd normPara ?wl p < 98) \<and>
        (rs < 98 \<longrightarrow>
           (\<forall>p. isScanPosition normPara p \<longrightarrow> windowScore pr ?nd normPara ?wl p \<le> rs)))"
      by (rule scanLoop_post [OF wl z scanInv_start r])
    show "fuzzyScan pr normAnchor normPara normToOrig =
        (if 0 \<le> rp \<and> 60 \<le> rs then nthOrNull normToOrig (nat rp) else None)"
      using r by (simp add: fuzzyScan_def Let_def)
  qed
  from a b c d show ?thesis by (intro conjI)
qed

theorem fuzzy_window_scan_witness:
  "scanLoop (\<lambda>n w. if take (length n) w = n then 100 else 10)
     (scanNeedleOf (js ''world'')) (js ''helloworld'') (windowLenOf (scanNeedleOf (js ''world'')))
     0 0 (- 1) = (100, 5) \<and>
   isScanPosition (js ''helloworld'') 5 \<and>
   windowScore (\<lambda>n w. if take (length n) w = n then 100 else 10)
     (scanNeedleOf (js ''world'')) (js ''helloworld'') (windowLenOf (scanNeedleOf (js ''world''))) 0
     < 98 \<and>
   fuzzyScan (\<lambda>n w. if take (length n) w = n then 100 else 10)
     (js ''world'') (js ''helloworld'') [0, 1, 2, 3, 4, 5, 6, 7, 8, 9] = Some 5"
proof -
  let ?pr = "\<lambda>n w :: jsstring. if take (length n) w = n then 100 else (10::int)"
  have nd: "scanNeedleOf (js ''world'') = js ''world''"
    by (simp add: scanNeedleOf_def js_def)
  have wl: "windowLenOf (js ''world'') = 80"
    by (simp add: windowLenOf_def js_def)
  have run: "scanLoop ?pr (js ''world'') (js ''helloworld'') 80 0 0 (- 1) = (100, 5)"
    by (simp add: scanLoop.simps slice_def js_def)
  have p0: "isScanPosition (js ''helloworld'') 0 \<and> (0::nat) < nat 5"
    by (simp add: isScanPosition_def js_def)
  note t = fuzzy_window_scan [of "js ''world''" ?pr "js ''helloworld''" "[0, 1, 2, 3, 4, 5, 6, 7, 8, 9]",
      unfolded nd wl]
  from t run have
    post: "(5 = - (1::int) \<and> (100::int) = 0 \<and>
        (\<forall>p. isScanPosition (js ''helloworld'') p \<longrightarrow>
           windowScore ?pr (js ''world'') (js ''helloworld'') 80 p \<le> 0)) \<or>
       (0 \<le> (5::int) \<and> isScanPosition (js ''helloworld'') (nat 5) \<and>
        100 = windowScore ?pr (js ''world'') (js ''helloworld'') 80 (nat 5) \<and> 0 < (100::int) \<and>
        (\<forall>p. isScanPosition (js ''helloworld'') p \<and> p < nat 5 \<longrightarrow>
           windowScore ?pr (js ''world'') (js ''helloworld'') 80 p < 100 \<and>
           windowScore ?pr (js ''world'') (js ''helloworld'') 80 p < 98) \<and>
        ((100::int) < 98 \<longrightarrow>
           (\<forall>p. isScanPosition (js ''helloworld'') p \<longrightarrow>
              windowScore ?pr (js ''world'') (js ''helloworld'') 80 p \<le> 100)))"
    and fz: "fuzzyScan ?pr (js ''world'') (js ''helloworld'') [0, 1, 2, 3, 4, 5, 6, 7, 8, 9] =
        (if 0 \<le> (5::int) \<and> 60 \<le> (100::int) then nthOrNull [0, 1, 2, 3, 4, 5, 6, 7, 8, 9] (nat 5) else None)"
    by blast+
  from post have sp: "isScanPosition (js ''helloworld'') 5"
    and before: "\<forall>p. isScanPosition (js ''helloworld'') p \<and> p < nat 5 \<longrightarrow>
           windowScore ?pr (js ''world'') (js ''helloworld'') 80 p < 98"
    by auto
  from before p0 have w0: "windowScore ?pr (js ''world'') (js ''helloworld'') 80 0 < 98"
    by blast
  from fz have f5: "fuzzyScan ?pr (js ''world'') (js ''helloworld'') [0, 1, 2, 3, 4, 5, 6, 7, 8, 9] = Some 5"
    by (simp add: nthOrNull_def)
  from run sp w0 f5 show ?thesis by (simp add: nd wl)
qed

section \<open>The loop over the records\<close>


lemma findBest_length_only:
  "length ps = length ps' \<Longrightarrow>
     findBestParagraphMatch pr ps ts a = findBestParagraphMatch pr ps' ts a"
  by (simp add: findBestParagraphMatch_def Let_def)

lemma bestMatchStep_index:
  "bestIndex (bestMatchStep pr ca ts best i) = bestIndex best \<or>
   bestIndex (bestMatchStep pr ca ts best i) = int i"
  by (simp add: bestMatchStep_def Let_def scoreMatch_def)

lemma foldl_bestIndex:
  "bestIndex (foldl (bestMatchStep pr ca ts) best xs) = bestIndex best \<or>
   (\<exists>i \<in> set xs. bestIndex (foldl (bestMatchStep pr ca ts) best xs) = int i)"
proof (induction xs arbitrary: best)
  case Nil
  then show ?case by simp
next
  case (Cons x xs)
  from Cons.IH [of "bestMatchStep pr ca ts best x"] bestMatchStep_index [of pr ca ts best x]
  show ?case by auto
qed

lemma findBest_index_range:
  "bestIndex (findBestParagraphMatch pr ps ts a) = - 1 \<or>
   (0 \<le> bestIndex (findBestParagraphMatch pr ps ts a) \<and>
    bestIndex (findBestParagraphMatch pr ps ts a) < int (length ps))"
proof (cases "cleanAnchorText a = []")
  case True
  then show ?thesis by (simp add: findBestParagraphMatch_def)
next
  case False
  let ?init = "\<lparr>bestIndex = - 1, bestScore = 0, bestMethod = ''partial_ratio''\<rparr>"
  from foldl_bestIndex [of pr "cleanAnchorText a" ts ?init "[0 ..< length ps]"] False
  show ?thesis by (auto simp: findBestParagraphMatch_def Let_def)
qed

lemma probe_fresh: "probe used k \<notin> set used"
  by (induction used k rule: probe.induct) (subst probe.simps, simp)

lemma setAdd_probe: "setAdd used (probe used k) = used @ [probe used k]"
  by (simp add: setAdd_def probe_fresh)

lemma insert_ok:
  "\<exists>p'. insertCommentAnchorIntoParagraph p c k = Inr p'"
  using insertCommentAnchor_shape [of p c k] by blast

lemma mergeStep_skip:
  assumes "matchedParagraph pr (paragraphs s) ts it < 0"
  shows "mergeStep lc pr now ts s i it = Inr s"
  using assms
  by (cases it) (simp_all add: mergeStep_def matchedParagraph_def anchorOf_def Let_def emptyItem_def)

lemma mergeStep_merged:
  assumes m: "0 \<le> matchedParagraph pr (paragraphs s) ts it"
  shows "\<exists>p' d cd.
     mergeStep lc pr now ts s i it =
       Inr \<lparr>paragraphs = (paragraphs s)[nat (matchedParagraph pr (paragraphs s) ts it) := p'],
            commentsDoc = cd,
            nextCommentId = plusOne (nextCommentId s),
            mergedCount = mergedCount s + 1,
            details = details s @ [d],
            usedAnchorIndicesByParagraph =
              (usedAnchorIndicesByParagraph s)
                (nat (matchedParagraph pr (paragraphs s) ts it) \<mapsto>
                   usedOf s (nat (matchedParagraph pr (paragraphs s) ts it)) @ [anchorNodeIndex d])\<rparr> \<and>
     index d = i \<and>
     anchorNodeIndex d \<notin> set (usedOf s (nat (matchedParagraph pr (paragraphs s) ts it))) \<and>
     (startMethod d, approxStart d) =
        locateStart lc pr (case nthOrNull ts (nat (matchedParagraph pr (paragraphs s) ts it)) of
                             None \<Rightarrow> [] | Some t \<Rightarrow> t) (anchorOf it) \<and>
     (\<exists>a t. cd = addNativeComment (commentsDoc s) (nextCommentId s) a now t) \<and>
     nat (matchedParagraph pr (paragraphs s) ts it) < length (paragraphs s) \<and>
     anchorNodeIndex d =
       probe (usedOf s (nat (matchedParagraph pr (paragraphs s) ts it)))
         (findBestAnchorCandidateIndexForOffset
            (paragraphs s ! nat (matchedParagraph pr (paragraphs s) ts it))
            (case approxStart d of None \<Rightarrow> 0 | Some a \<Rightarrow> a)) \<and>
     insertCommentAnchorIntoParagraph
       (paragraphs s ! nat (matchedParagraph pr (paragraphs s) ts it))
       (nextCommentId s) (anchorNodeIndex d) = Inr p'"
proof -
  let ?best = "findBestParagraphMatch pr (paragraphs s) ts (anchorOf it)"
  let ?b = "nat (bestIndex ?best)"
  have bi: "bestIndex ?best = matchedParagraph pr (paragraphs s) ts it"
    by (simp add: matchedParagraph_def)
  from m have nn: "\<not> bestIndex ?best < 0" by (simp add: bi)
  from findBest_index_range [of pr "paragraphs s" ts "anchorOf it"] nn
  have lt: "?b < length (paragraphs s)" by auto
  then have par: "nthOrNull (paragraphs s) ?b = Some (paragraphs s ! ?b)"
    by (simp add: nthOrNull_def)
  let ?paraText = "case nthOrNull ts ?b of None \<Rightarrow> [] | Some t \<Rightarrow> t"
  obtain sm ap where loc: "locateStart lc pr ?paraText (anchorOf it) = (sm, ap)"
    by (cases "locateStart lc pr ?paraText (anchorOf it)") auto
  let ?k0 = "findBestAnchorCandidateIndexForOffset (paragraphs s ! ?b)
               (case ap of None \<Rightarrow> 0 | Some a \<Rightarrow> a)"
  let ?k = "probe (usedOf s ?b) ?k0"
  obtain p' where ins:
    "insertCommentAnchorIntoParagraph (paragraphs s ! ?b) (nextCommentId s) ?k = Inr p'"
    using insert_ok by blast
  have an: "(case (case it of None \<Rightarrow> emptyItem | Some x \<Rightarrow> x) of
               r \<Rightarrow> (case anchor_text r of None \<Rightarrow> [] | Some v \<Rightarrow> v)) = anchorOf it"
    by (cases it) (simp_all add: anchorOf_def emptyItem_def)
  show ?thesis
    using nn par loc ins an lt
    by (simp add: mergeStep_def Let_def bi [symmetric] usedOf_def [symmetric] setAdd_probe
        probe_fresh) blast
qed


lemma usedOf_update:
  "usedOf (s\<lparr>usedAnchorIndicesByParagraph := (usedAnchorIndicesByParagraph s)(b \<mapsto> u)\<rparr>) b' =
     (if b' = b then u else usedOf s b')"
  by (simp add: usedOf_def)

lemma filter_upt_Suc:
  "filter P [0 ..< Suc i] = filter P [0 ..< i] @ (if P i then [i] else [])"
  by simp

lemma mergeStep_inv:
  assumes inv: "loopInv pr paras ts items f i s"
  shows "\<exists>s'. mergeStep lc pr now ts s i (items ! i) = Inr s' \<and>
           loopInv pr paras ts items f (Suc i) s'"
proof -
  let ?mp = "\<lambda>j. matchedParagraph pr paras ts (items ! j)"
  from inv have len: "length (paragraphs s) = length paras"
    and idx: "map index (details s) = filter (\<lambda>j. 0 \<le> ?mp j) [0 ..< i]"
    and cnt: "mergedCount s = length (details s)"
    and nxt: "nextCommentId s = (plusOne ^^ length (details s)) f"
    and used: "\<forall>d \<in> set (details s). anchorNodeIndex d \<in> set (usedOf s (nat (?mp (index d))))"
    and dist: "distinct (map (\<lambda>d. (?mp (index d), anchorNodeIndex d)) (details s))"
    by (simp_all add: loopInv_def)
  have same: "matchedParagraph pr (paragraphs s) ts (items ! i) = ?mp i"
    using findBest_length_only [OF len] by (simp add: matchedParagraph_def)
  show ?thesis
  proof (cases "?mp i < 0")
    case True
    then have "mergeStep lc pr now ts s i (items ! i) = Inr s"
      using mergeStep_skip [of pr s ts "items ! i" lc now i] same by simp
    moreover have "loopInv pr paras ts items f (Suc i) s"
      using inv True by (simp add: loopInv_def)
    ultimately show ?thesis by blast
  next
    case False
    then have m: "0 \<le> matchedParagraph pr (paragraphs s) ts (items ! i)"
      by (simp add: same)
    let ?b = "nat (?mp i)"
    from mergeStep_merged [OF m, of lc now i, unfolded same] obtain p' d cd where
      st: "mergeStep lc pr now ts s i (items ! i) =
         Inr \<lparr>paragraphs = (paragraphs s)[?b := p'], commentsDoc = cd,
              nextCommentId = plusOne (nextCommentId s), mergedCount = mergedCount s + 1,
              details = details s @ [d],
              usedAnchorIndicesByParagraph =
                (usedAnchorIndicesByParagraph s)(?b \<mapsto> usedOf s ?b @ [anchorNodeIndex d])\<rparr>"
      and di: "index d = i"
      and fresh: "anchorNodeIndex d \<notin> set (usedOf s ?b)"
      by blast
    let ?s' = "\<lparr>paragraphs = (paragraphs s)[?b := p'], commentsDoc = cd,
              nextCommentId = plusOne (nextCommentId s), mergedCount = mergedCount s + 1,
              details = details s @ [d],
              usedAnchorIndicesByParagraph =
                (usedAnchorIndicesByParagraph s)(?b \<mapsto> usedOf s ?b @ [anchorNodeIndex d])\<rparr>"
    have u': "usedOf ?s' b' = (if b' = ?b then usedOf s ?b @ [anchorNodeIndex d] else usedOf s b')"
      for b'
      by (simp add: usedOf_def)
    have i1: "length (paragraphs ?s') = length paras" using len by simp
    have i2: "map index (details ?s') = filter (\<lambda>j. 0 \<le> ?mp j) [0 ..< Suc i]"
      using idx False di by simp
    have i3: "mergedCount ?s' = length (details ?s')" using cnt by simp
    have i4: "nextCommentId ?s' = (plusOne ^^ length (details ?s')) f" using nxt by simp
    have i5: "\<forall>d' \<in> set (details ?s').
        anchorNodeIndex d' \<in> set (usedOf ?s' (nat (?mp (index d'))))"
    proof
      fix d' assume "d' \<in> set (details ?s')"
      then have "d' \<in> set (details s) \<or> d' = d" by auto
      then show "anchorNodeIndex d' \<in> set (usedOf ?s' (nat (?mp (index d'))))"
      proof
        assume "d' \<in> set (details s)"
        with used have "anchorNodeIndex d' \<in> set (usedOf s (nat (?mp (index d'))))" by blast
        then show ?thesis unfolding u' by auto
      next
        assume "d' = d"
        then show ?thesis unfolding u' by (simp add: di)
      qed
    qed
    have new: "(?mp (index d), anchorNodeIndex d) \<notin>
        set (map (\<lambda>d. (?mp (index d), anchorNodeIndex d)) (details s))"
    proof
      assume "(?mp (index d), anchorNodeIndex d) \<in>
        set (map (\<lambda>d. (?mp (index d), anchorNodeIndex d)) (details s))"
      then obtain d' where d': "d' \<in> set (details s)" "?mp (index d') = ?mp (index d)"
        "anchorNodeIndex d' = anchorNodeIndex d" by auto
      from used d'(1) have "anchorNodeIndex d' \<in> set (usedOf s (nat (?mp (index d'))))"
        by blast
      with d'(2,3) di have "anchorNodeIndex d \<in> set (usedOf s ?b)" by simp
      with fresh show False by simp
    qed
    have i6: "distinct (map (\<lambda>d. (?mp (index d), anchorNodeIndex d)) (details ?s'))"
      using dist new by simp
    have "loopInv pr paras ts items f (Suc i) ?s'"
      unfolding loopInv_def using i1 i2 i3 i4 i5 i6 by blast
    with st show ?thesis by blast
  qed
qed

lemma mergeLoop_inv:
  assumes "its = drop i items" "i \<le> length items" "loopInv pr paras ts items f i s"
  shows "\<exists>s'. mergeLoop lc pr now ts its i s = Inr s' \<and>
           loopInv pr paras ts items f (length items) s'"
  using assms
proof (induction its arbitrary: i s)
  case Nil
  then have "i = length items" by simp
  with Nil.prems(3) show ?case by simp
next
  case (Cons it its)
  from Cons.prems(1) have i: "i < length items"
    by (metis drop_all list.distinct(1) not_le)
  from Cons.prems(1) i have it: "it = items ! i" and rest: "its = drop (Suc i) items"
    by (simp_all add: Cons_nth_drop_Suc [symmetric])
  from i have i': "Suc i \<le> length items" by simp
  from mergeStep_inv [OF Cons.prems(3), of lc now] obtain s1 where
    s1: "mergeStep lc pr now ts s i (items ! i) = Inr s1"
      "loopInv pr paras ts items f (Suc i) s1" by blast
  from Cons.IH [OF rest i' s1(2)] obtain s' where
    "mergeLoop lc pr now ts its (Suc i) s1 = Inr s'"
    "loopInv pr paras ts items f (length items) s'" by blast
  with s1(1) it show ?case by simp
qed

lemma initialState_inv:
  "loopInv pr paras ts items (plusOne (getMaxCommentId comments)) 0 (initialState paras comments)"
  by (simp add: loopInv_def initialState_def)

lemma mergeRun_inv:
  "\<exists>s. mergeRun lc pr now paras comments items =
         Inr (s, \<lparr>res_mergedCount = mergedCount s, res_totalCount = length items,
                  res_details = details s\<rparr>) \<and>
       loopInv pr paras (map getParagraphText paras) items (plusOne (getMaxCommentId comments))
         (length items) s"
proof -
  have d: "items = drop 0 items" by simp
  from mergeLoop_inv [OF d _ initialState_inv, of lc pr now "map getParagraphText paras" paras comments]
  obtain s where
    "mergeLoop lc pr now (map getParagraphText paras) items 0 (initialState paras comments) = Inr s"
    "loopInv pr paras (map getParagraphText paras) items (plusOne (getMaxCommentId comments))
       (length items) s"
    by auto
  then show ?thesis by (simp add: mergeRun_def Let_def)
qed

section \<open>The sample run\<close>


lemma foxText: "getParagraphText foxParagraph = js ''The quick brown fox''"
  by (simp add: getParagraphText_def foxParagraph_def descendantElements_def textContribution_def)

lemma clean_brown: "cleanAnchorText (js ''brown'') = js ''brown''"
  by (simp add: cleanAnchorText_def js_def isSpace_def trim_def)

lemma trim_fox: "trim (js ''The quick brown fox'') \<noteq> []"
  by (simp add: js_def isSpace_def trim_def)

lemma indexOf_fox: "indexOf (js ''The quick brown fox'') (js ''brown'') = Some 10"
  by (simp add: indexOf_def js_def)

lemma brown_ne: "js ''brown'' \<noteq> []"
  by (simp add: js_def)

lemma mp_fox:
  "matchedParagraph exactRatio [foxParagraph] [js ''The quick brown fox''] (Some foxItem) = 0"
  by (simp add: matchedParagraph_def anchorOf_def foxItem_def findBestParagraphMatch_def
      clean_brown bestMatchStep_def nthOrNull_def trim_fox scoreMatch_def exactRatio_def
      includesStr_def indexOf_fox Let_def brown_ne)

lemma mp_blank:
  "matchedParagraph exactRatio [foxParagraph] [js ''The quick brown fox''] (Some blankItem) = - 1"
proof -
  have "trim (js ''  '') = []" by (simp add: trim_def js_def isSpace_def)
  then have "cleanAnchorText (js ''  '') = []" by (rule cleanAnchorText_blank)
  then show ?thesis
    by (simp add: matchedParagraph_def anchorOf_def blankItem_def findBestParagraphMatch_def)
qed

lemma sampleComments_string:
  "commentIdString (Element W_NS ''w'' ''comment'' [Attr W_NS ''w'' ''id'' v] cs) = v"
  by (simp add: commentIdString_def getAttributeNS_def)

lemma decimalValue_3: "decimalValue (js ''3'') = Some 3"
  by (simp add: decimalValue_def js_def isSpace_def isDigit_def digitsValue_def)

lemma sampleComments_ids: "commentIds sampleComments = [Some 3]"
  by (simp add: commentIds_def commentIdsIn_def sampleComments_def commentIdExact_def
      sampleComments_string decimalValue_3)

lemma sampleComments_max: "getMaxCommentId sampleComments = 3"
proof -
  have "parseInt (js ''3'') = Some 3"
    using decimalValue_3 by (rule parseInt_exact) simp
  then show ?thesis
    by (simp add: getMaxCommentId_def getElementsByTagNameNS_def sampleComments_def
        maxCommentIdStep_def commentIdOf_def sampleComments_string)
qed

section \<open>The insertion made for a merged record\<close>

text \<open>
  Claim C1. Take the loop body at any state of the loop and a record that matches a
  paragraph: \<open>b\<close> is the index of the chosen paragraph, \<open>paragraph\<close> the paragraph as it is
  before the step, \<open>commentId\<close> the value of the counter. The step succeeds, the loop goes on
  from the state it leaves, and it adds one details entry, whose \<open>anchorNodeIndex\<close> is the
  index chosen for the approximate start, moved up past the indices already used in the
  paragraph. The comment added to the comments part has the id \<open>commentId\<close>. The paragraph
  list changes at \<open>b\<close> only, where the new paragraph is what
  \<open>insertCommentAnchorIntoParagraph\<close> returns for \<open>commentId\<close> and that index: its children
  are those of \<open>paragraph\<close> with, around the anchor node, a \<open>w:commentRangeStart\<close> right before
  it, a \<open>w:commentRangeEnd\<close> right after it, and after that a run holding the
  \<open>CommentReference\<close> style and a \<open>w:commentReference\<close>; the three carry \<open>String(commentId)\<close>
  as \<open>w:id\<close>. The anchor node is the candidate with that index, at the position it had, with
  the same children before it and the same children after the inserted run; when the index is
  past the candidates it is a new space run placed after all the old children.
\<close>

theorem insertCommentAnchor_order:
  assumes "0 \<le> matchedParagraph pr (paragraphs s) paragraphTexts itemOrNull"
    and "b = nat (matchedParagraph pr (paragraphs s) paragraphTexts itemOrNull)"
    and "paragraph = paragraphs s ! b"
    and "commentId = nextCommentId s"
  shows "\<exists>s' d.
     mergeStep lc pr nowIso paragraphTexts s i itemOrNull = Inr s' \<and>
     mergeLoop lc pr nowIso paragraphTexts (itemOrNull # rest) i s =
       mergeLoop lc pr nowIso paragraphTexts rest (i + 1) s' \<and>
     details s' = details s @ [d] \<and> index d = i \<and>
     mergedCount s' = mergedCount s + 1 \<and>
     b < length (paragraphs s) \<and>
     anchorNodeIndex d =
       probe (usedOf s b)
         (findBestAnchorCandidateIndexForOffset paragraph
            (case approxStart d of None \<Rightarrow> 0 | Some a \<Rightarrow> a)) \<and>
     (\<exists>authorName text.
        commentsDoc s' = addNativeComment (commentsDoc s) commentId authorName nowIso text) \<and>
     insertCommentAnchorIntoParagraph paragraph commentId (anchorNodeIndex d) =
       Inr (paragraphs s' ! b) \<and>
     paragraphs s' =
       (paragraphs s)[b := setChildNodes paragraph
         (if anchorNodeIndex d < length (getDirectChildAnchorCandidates paragraph)
          then take (candidatePositions paragraph ! anchorNodeIndex d) (childNodes paragraph) @
               [Element W_NS ''w'' ''commentRangeStart''
                  [Attr W_NS ''w'' ''id'' (String_of_int commentId)] [],
                getDirectChildAnchorCandidates paragraph ! anchorNodeIndex d,
                Element W_NS ''w'' ''commentRangeEnd''
                  [Attr W_NS ''w'' ''id'' (String_of_int commentId)] [],
                Element W_NS ''w'' ''r'' []
                  [Element W_NS ''w'' ''rPr'' []
                     [Element W_NS ''w'' ''rStyle''
                        [Attr W_NS ''w'' ''val'' (js ''CommentReference'')] []],
                   Element W_NS ''w'' ''commentReference''
                     [Attr W_NS ''w'' ''id'' (String_of_int commentId)] []]] @
               drop (Suc (candidatePositions paragraph ! anchorNodeIndex d)) (childNodes paragraph)
          else childNodes paragraph @
               [Element W_NS ''w'' ''commentRangeStart''
                  [Attr W_NS ''w'' ''id'' (String_of_int commentId)] [],
                Element W_NS ''w'' ''r'' []
                  [Element W_NS ''w'' ''t'' [Attr XML_NS ''xml'' ''space'' (js ''preserve'')]
                     [Text [32]]],
                Element W_NS ''w'' ''commentRangeEnd''
                  [Attr W_NS ''w'' ''id'' (String_of_int commentId)] [],
                Element W_NS ''w'' ''r'' []
                  [Element W_NS ''w'' ''rPr'' []
                     [Element W_NS ''w'' ''rStyle''
                        [Attr W_NS ''w'' ''val'' (js ''CommentReference'')] []],
                   Element W_NS ''w'' ''commentReference''
                     [Attr W_NS ''w'' ''id'' (String_of_int commentId)] []]])] \<and>
     (anchorNodeIndex d < length (getDirectChildAnchorCandidates paragraph) \<longrightarrow>
        candidatePositions paragraph ! anchorNodeIndex d < length (childNodes paragraph) \<and>
        childNodes paragraph ! (candidatePositions paragraph ! anchorNodeIndex d) =
          getDirectChildAnchorCandidates paragraph ! anchorNodeIndex d)"
proof -
  note m = assms(1)
  from mergeStep_merged [OF m, of lc nowIso i, folded assms(2), folded assms(3) assms(4)]
  obtain p' d cd where
    st: "mergeStep lc pr nowIso paragraphTexts s i itemOrNull =
       Inr \<lparr>paragraphs = (paragraphs s)[b := p'], commentsDoc = cd,
            nextCommentId = plusOne commentId, mergedCount = mergedCount s + 1,
            details = details s @ [d],
            usedAnchorIndicesByParagraph =
              (usedAnchorIndicesByParagraph s)(b \<mapsto> usedOf s b @ [anchorNodeIndex d])\<rparr>"
    and di: "index d = i"
    and cd: "\<exists>a t. cd = addNativeComment (commentsDoc s) commentId a nowIso t"
    and lt: "b < length (paragraphs s)"
    and k: "anchorNodeIndex d =
       probe (usedOf s b)
         (findBestAnchorCandidateIndexForOffset paragraph
            (case approxStart d of None \<Rightarrow> 0 | Some a \<Rightarrow> a))"
    and ins: "insertCommentAnchorIntoParagraph paragraph commentId (anchorNodeIndex d) = Inr p'"
    by blast
  let ?s' = "\<lparr>paragraphs = (paragraphs s)[b := p'], commentsDoc = cd,
            nextCommentId = plusOne commentId, mergedCount = mergedCount s + 1,
            details = details s @ [d],
            usedAnchorIndicesByParagraph =
              (usedAnchorIndicesByParagraph s)(b \<mapsto> usedOf s b @ [anchorNodeIndex d])\<rparr>"
  let ?k = "anchorNodeIndex d"
  have lp: "mergeLoop lc pr nowIso paragraphTexts (itemOrNull # rest) i s =
       mergeLoop lc pr nowIso paragraphTexts rest (i + 1) ?s'"
    by (simp add: st)
  have nb: "paragraphs ?s' ! b = p'" using lt by simp
  from ins insertCommentAnchor_explicit [of "paragraph" commentId ?k]
  have p': "p' = setChildNodes paragraph
         (if ?k < length (getDirectChildAnchorCandidates paragraph)
          then take (candidatePositions paragraph ! ?k) (childNodes paragraph) @
               [Element W_NS ''w'' ''commentRangeStart''
                  [Attr W_NS ''w'' ''id'' (String_of_int commentId)] [],
                getDirectChildAnchorCandidates paragraph ! ?k,
                Element W_NS ''w'' ''commentRangeEnd''
                  [Attr W_NS ''w'' ''id'' (String_of_int commentId)] [],
                Element W_NS ''w'' ''r'' []
                  [Element W_NS ''w'' ''rPr'' []
                     [Element W_NS ''w'' ''rStyle''
                        [Attr W_NS ''w'' ''val'' (js ''CommentReference'')] []],
                   Element W_NS ''w'' ''commentReference''
                     [Attr W_NS ''w'' ''id'' (String_of_int commentId)] []]] @
               drop (Suc (candidatePositions paragraph ! ?k)) (childNodes paragraph)
          else childNodes paragraph @
               [Element W_NS ''w'' ''commentRangeStart''
                  [Attr W_NS ''w'' ''id'' (String_of_int commentId)] [],
                Element W_NS ''w'' ''r'' []
                  [Element W_NS ''w'' ''t'' [Attr XML_NS ''xml'' ''space'' (js ''preserve'')]
                     [Text [32]]],
                Element W_NS ''w'' ''commentRangeEnd''
                  [Attr W_NS ''w'' ''id'' (String_of_int commentId)] [],
                Element W_NS ''w'' ''r'' []
                  [Element W_NS ''w'' ''rPr'' []
                     [Element W_NS ''w'' ''rStyle''
                        [Attr W_NS ''w'' ''val'' (js ''CommentReference'')] []],
                   Element W_NS ''w'' ''commentReference''
                     [Attr W_NS ''w'' ''id'' (String_of_int commentId)] []]])"
    by simp
  have pos: "?k < length (getDirectChildAnchorCandidates paragraph) \<longrightarrow>
        candidatePositions paragraph ! ?k < length (childNodes paragraph) \<and>
        childNodes paragraph ! (candidatePositions paragraph ! ?k) =
          getDirectChildAnchorCandidates paragraph ! ?k"
    by (simp add: candidatePositions_bound candidatePositions_nth candidatePositions_length)
  have c1: "details ?s' = details s @ [d]" by simp
  have c2: "mergedCount ?s' = mergedCount s + 1" by simp
  have c3: "\<exists>authorName text.
        commentsDoc ?s' = addNativeComment (commentsDoc s) commentId authorName nowIso text"
    using cd by simp
  have c4: "insertCommentAnchorIntoParagraph paragraph commentId ?k = Inr (paragraphs ?s' ! b)"
    using ins nb by simp
  have c5: "paragraphs ?s' = (paragraphs s)[b := p']" by simp
  show ?thesis
    apply (rule exI [of _ ?s'])
    apply (rule exI [of _ d])
    apply (intro conjI)
              apply (rule st)
             apply (rule lp)
            apply (rule c1)
           apply (rule di)
          apply (rule c2)
         apply (rule lt)
        apply (rule k)
       apply (rule c3)
      apply (rule c4)
     apply (subst p' [symmetric])
     apply (rule c5)
    apply (rule pos)
    done
qed

theorem insertCommentAnchor_order_witness:
  "0 \<le> matchedParagraph exactRatio (paragraphs (initialState [foxParagraph] sampleComments))
          [js ''The quick brown fox''] (Some foxItem) \<and>
   nextCommentId (initialState [foxParagraph] sampleComments) = 4 \<and>
   (\<exists>s'. mergeStep toLowerCaseUnit exactRatio (js ''now'') [js ''The quick brown fox'']
           (initialState [foxParagraph] sampleComments) 0 (Some foxItem) = Inr s' \<and>
         map anchorNodeIndex (details s') = [0] \<and>
         paragraphs s' =
           [Element W_NS ''w'' ''p'' []
              [Element W_NS ''w'' ''commentRangeStart'' [Attr W_NS ''w'' ''id'' (js ''4'')] [],
               Element W_NS ''w'' ''r'' []
                 [Element W_NS ''w'' ''t'' [] [Text (js ''The quick brown fox'')]],
               Element W_NS ''w'' ''commentRangeEnd'' [Attr W_NS ''w'' ''id'' (js ''4'')] [],
               Element W_NS ''w'' ''r'' []
                 [Element W_NS ''w'' ''rPr'' []
                    [Element W_NS ''w'' ''rStyle''
                       [Attr W_NS ''w'' ''val'' (js ''CommentReference'')] []],
                  Element W_NS ''w'' ''commentReference''
                    [Attr W_NS ''w'' ''id'' (js ''4'')] []]]])"
proof -
  let ?s0 = "initialState [foxParagraph] sampleComments"
  let ?ts = "[js ''The quick brown fox'']"
  have ps: "paragraphs ?s0 = [foxParagraph]" by (simp add: initialState_def)
  have mp: "matchedParagraph exactRatio (paragraphs ?s0) ?ts (Some foxItem) = 0"
    by (simp add: ps mp_fox)
  have m: "0 \<le> matchedParagraph exactRatio (paragraphs ?s0) ?ts (Some foxItem)"
    by (simp add: mp)
  have b: "0 = nat (matchedParagraph exactRatio (paragraphs ?s0) ?ts (Some foxItem))"
    by (simp add: mp)
  have p: "foxParagraph = paragraphs ?s0 ! 0" by (simp add: ps)
  have id4: "nextCommentId ?s0 = 4"
    by (simp add: initialState_def sampleComments_max plusOne_exact)
  have c: "4 = nextCommentId ?s0" by (simp add: id4)
  have s4: "String_of_int 4 = js ''4''"
    by (simp add: String_of_int_def numberString_def digitsOf.simps js_def)
  have cands: "getDirectChildAnchorCandidates foxParagraph =
      [Element W_NS ''w'' ''r'' [] [Element W_NS ''w'' ''t'' [] [Text (js ''The quick brown fox'')]]]"
    by (simp add: getDirectChildAnchorCandidates_def foxParagraph_def isAnchorCandidate_def
        elementGetElementsByTagNameNS_def descendantElements_def)
  have pos: "candidatePositions foxParagraph = [0]"
    by (simp add: candidatePositions_def foxParagraph_def isAnchorCandidate_def
        elementGetElementsByTagNameNS_def descendantElements_def)
  have k0: "findBestAnchorCandidateIndexForOffset foxParagraph off = 0" for off
    using findBestAnchor_range [of foxParagraph off] by (simp add: cands)
  have used: "usedOf ?s0 0 = []" by (simp add: usedOf_def initialState_def)
  have pr0: "probe [] 0 = 0" by (subst probe.simps) simp
  from insertCommentAnchor_order [OF m b p c, of toLowerCaseUnit "js ''now''" 0 "[]"]
  obtain s' d where
    st: "mergeStep toLowerCaseUnit exactRatio (js ''now'') ?ts ?s0 0 (Some foxItem) = Inr s'"
    and dt: "details s' = details ?s0 @ [d]"
    and k: "anchorNodeIndex d =
       probe (usedOf ?s0 0)
         (findBestAnchorCandidateIndexForOffset foxParagraph
            (case approxStart d of None \<Rightarrow> 0 | Some a \<Rightarrow> a))"
    and new: "paragraphs s' =
       (paragraphs ?s0)[0 := setChildNodes foxParagraph
         (if anchorNodeIndex d < length (getDirectChildAnchorCandidates foxParagraph)
          then take (candidatePositions foxParagraph ! anchorNodeIndex d) (childNodes foxParagraph) @
               [Element W_NS ''w'' ''commentRangeStart''
                  [Attr W_NS ''w'' ''id'' (String_of_int 4)] [],
                getDirectChildAnchorCandidates foxParagraph ! anchorNodeIndex d,
                Element W_NS ''w'' ''commentRangeEnd''
                  [Attr W_NS ''w'' ''id'' (String_of_int 4)] [],
                Element W_NS ''w'' ''r'' []
                  [Element W_NS ''w'' ''rPr'' []
                     [Element W_NS ''w'' ''rStyle''
                        [Attr W_NS ''w'' ''val'' (js ''CommentReference'')] []],
                   Element W_NS ''w'' ''commentReference''
                     [Attr W_NS ''w'' ''id'' (String_of_int 4)] []]] @
               drop (Suc (candidatePositions foxParagraph ! anchorNodeIndex d)) (childNodes foxParagraph)
          else childNodes foxParagraph @
               [Element W_NS ''w'' ''commentRangeStart''
                  [Attr W_NS ''w'' ''id'' (String_of_int 4)] [],
                Element W_NS ''w'' ''r'' []
                  [Element W_NS ''w'' ''t'' [Attr XML_NS ''xml'' ''space'' (js ''preserve'')]
                     [Text [32]]],
                Element W_NS ''w'' ''commentRangeEnd''
                  [Attr W_NS ''w'' ''id'' (String_of_int 4)] [],
                Element W_NS ''w'' ''r'' []
                  [Element W_NS ''w'' ''rPr'' []
                     [Element W_NS ''w'' ''rStyle''
                        [Attr W_NS ''w'' ''val'' (js ''CommentReference'')] []],
                   Element W_NS ''w'' ''commentReference''
                     [Attr W_NS ''w'' ''id'' (String_of_int 4)] []]])]"
    by blast
  from k have kk: "anchorNodeIndex d = 0" by (simp only: used k0 pr0)
  have r1: "map anchorNodeIndex (details s') = [0]"
    by (simp add: dt kk initialState_def)
  have r2: "paragraphs s' =
           [Element W_NS ''w'' ''p'' []
              [Element W_NS ''w'' ''commentRangeStart'' [Attr W_NS ''w'' ''id'' (js ''4'')] [],
               Element W_NS ''w'' ''r'' []
                 [Element W_NS ''w'' ''t'' [] [Text (js ''The quick brown fox'')]],
               Element W_NS ''w'' ''commentRangeEnd'' [Attr W_NS ''w'' ''id'' (js ''4'')] [],
               Element W_NS ''w'' ''r'' []
                 [Element W_NS ''w'' ''rPr'' []
                    [Element W_NS ''w'' ''rStyle''
                       [Attr W_NS ''w'' ''val'' (js ''CommentReference'')] []],
                  Element W_NS ''w'' ''commentReference''
                    [Attr W_NS ''w'' ''id'' (js ''4'')] []]]]"
    unfolding new kk by (simp add: ps cands pos s4) (simp add: foxParagraph_def)
  show ?thesis
    apply (intro conjI)
      apply (rule m)
     apply (rule id4)
    apply (rule exI [of _ s'])
    apply (intro conjI)
      apply (rule st)
     apply (rule r1)
    apply (rule r2)
    done
qed

section \<open>The report of a run\<close>


lemma probe_least:
  "a \<le> probe used a \<and> (\<forall>x. a \<le> x \<and> x < probe used a \<longrightarrow> x \<in> set used)"
proof (induction used a rule: probe.induct)
  case (1 used a)
  show ?case
  proof (cases "a \<in> set used")
    case True
    then have p: "probe used a = probe used (a + 1)" by (subst probe.simps) simp
    from "1.IH" [OF True] have ih: "a + 1 \<le> probe used (a + 1)"
      "\<forall>x. a + 1 \<le> x \<and> x < probe used (a + 1) \<longrightarrow> x \<in> set used" by simp_all
    show ?thesis
    proof (intro conjI allI impI)
      show "a \<le> probe used a" using ih(1) p by simp
    next
      fix x assume x: "a \<le> x \<and> x < probe used a"
      show "x \<in> set used"
      proof (cases "x = a")
        case True with \<open>a \<in> set used\<close> show ?thesis by simp
      next
        case False
        with x have "a + 1 \<le> x \<and> x < probe used (a + 1)" using p by simp
        with ih(2) show ?thesis by blast
      qed
    qed
  next
    case False
    then have "probe used a = a" by (subst probe.simps) simp
    then show ?thesis by auto
  qed
qed

lemma sample_texts: "map getParagraphText [foxParagraph] = [js ''The quick brown fox'']"
  by (simp add: foxText)

text \<open>
  Claim C9, at a run with the single record \<open>blankItem\<close>, whose anchor is two spaces. The
  record is skipped by \<open>continue\<close> before anything is pushed: the report counts one record
  and has no details entry for it.
\<close>

theorem details_skip_counterexample:
  "mergeRun toLowerCaseUnit exactRatio (js ''now'') [foxParagraph] sampleComments [Some blankItem] =
     Inr (initialState [foxParagraph] sampleComments,
          \<lparr>res_mergedCount = 0, res_totalCount = 1, res_details = []\<rparr>)"
proof -
  have "matchedParagraph exactRatio (paragraphs (initialState [foxParagraph] sampleComments))
          [js ''The quick brown fox''] (Some blankItem) < 0"
    by (simp add: initialState_def mp_blank)
  then have "mergeStep toLowerCaseUnit exactRatio (js ''now'') [js ''The quick brown fox'']
      (initialState [foxParagraph] sampleComments) 0 (Some blankItem) =
      Inr (initialState [foxParagraph] sampleComments)"
    by (rule mergeStep_skip)
  then have "mergeLoop toLowerCaseUnit exactRatio (js ''now'') [js ''The quick brown fox'']
      [Some blankItem] 0 (initialState [foxParagraph] sampleComments) =
      Inr (initialState [foxParagraph] sampleComments)"
    by simp
  then show ?thesis
    by (simp add: mergeRun_def foxText Let_def) (simp add: initialState_def)
qed

text \<open>
  Claim C9, amended. A run never fails in the loop, and its report has one details entry for
  every merged record and none for a skipped one: the \<open>index\<close> fields of the details are,
  in order, the positions of the records that matched a paragraph. \<open>mergedCount\<close> is the
  number of details entries and \<open>totalCount\<close> the number of records.
\<close>

theorem details_for_merged_records:
  "\<exists>s r. mergeRun lc pr nowIso paras comments items = Inr (s, r) \<and>
     map index (res_details r) =
       filter (\<lambda>j. 0 \<le> matchedParagraph pr paras (map getParagraphText paras) (items ! j))
         [0 ..< length items] \<and>
     res_mergedCount r = length (res_details r) \<and>
     res_totalCount r = length items"
proof -
  from mergeRun_inv [of lc pr nowIso paras comments items] obtain s where
    run: "mergeRun lc pr nowIso paras comments items =
         Inr (s, \<lparr>res_mergedCount = mergedCount s, res_totalCount = length items,
                  res_details = details s\<rparr>)"
    and inv: "loopInv pr paras (map getParagraphText paras) items (plusOne (getMaxCommentId comments))
         (length items) s"
    by blast
  from inv have "map index (details s) =
       filter (\<lambda>j. 0 \<le> matchedParagraph pr paras (map getParagraphText paras) (items ! j))
         [0 ..< length items]" "mergedCount s = length (details s)"
    by (simp_all add: loopInv_def)
  with run show ?thesis by simp
qed

theorem details_for_merged_records_witness:
  "\<exists>s r. mergeRun toLowerCaseUnit exactRatio (js ''now'') [foxParagraph] sampleComments
            [Some foxItem, Some blankItem, Some foxItem] = Inr (s, r) \<and>
     map index (res_details r) = [0, 2] \<and> res_mergedCount r = 2 \<and> res_totalCount r = 3"
proof -
  let ?items = "[Some foxItem, Some blankItem, Some foxItem]"
  from details_for_merged_records [of toLowerCaseUnit exactRatio "js ''now''" "[foxParagraph]"
      sampleComments ?items]
  obtain s r where
    run: "mergeRun toLowerCaseUnit exactRatio (js ''now'') [foxParagraph] sampleComments
            ?items = Inr (s, r)"
    and idx: "map index (res_details r) =
       filter (\<lambda>j. 0 \<le> matchedParagraph exactRatio [foxParagraph]
                        (map getParagraphText [foxParagraph]) (?items ! j)) [0 ..< length ?items]"
    and cnt: "res_mergedCount r = length (res_details r)"
    and tot: "res_totalCount r = length ?items"
    by blast
  have f: "filter (\<lambda>j. 0 \<le> matchedParagraph exactRatio [foxParagraph]
                        (map getParagraphText [foxParagraph]) (?items ! j)) [0 ..< length ?items]
           = [0, 2]"
    by (simp add: foxText upt_rec mp_fox mp_blank)
  from idx f have i: "map index (res_details r) = [0, 2]" by simp
  have "length (map index (res_details r)) = 2" by (simp add: i)
  then have len: "length (res_details r) = 2" by simp
  from run i cnt tot len show ?thesis by simp
qed

text \<open>
  Claim C5. In the report of a run, two different details entries whose records matched the
  same paragraph have different \<open>anchorNodeIndex\<close> values. The probing returns the first
  index, from the chosen one upwards, that is not in the used set of the paragraph.
\<close>

theorem anchor_indices_differ:
  assumes "mergeRun lc pr nowIso paras comments items = Inr (s, r)"
    and "j < length (res_details r)" and "k < length (res_details r)" and "j \<noteq> k"
    and "matchedParagraph pr paras (map getParagraphText paras) (items ! index (res_details r ! j)) =
         matchedParagraph pr paras (map getParagraphText paras) (items ! index (res_details r ! k))"
  shows "anchorNodeIndex (res_details r ! j) \<noteq> anchorNodeIndex (res_details r ! k) \<and>
         index (res_details r ! j) < length items \<and> index (res_details r ! k) < length items \<and>
         (\<forall>used a. probe used a \<notin> set used \<and> a \<le> probe used a \<and>
            (\<forall>x. a \<le> x \<and> x < probe used a \<longrightarrow> x \<in> set used))"
proof -
  let ?ts = "map getParagraphText paras"
  let ?f = "\<lambda>d. (matchedParagraph pr paras ?ts (items ! index d), anchorNodeIndex d)"
  from mergeRun_inv [of lc pr nowIso paras comments items] obtain s0 where
    run0: "mergeRun lc pr nowIso paras comments items =
         Inr (s0, \<lparr>res_mergedCount = mergedCount s0, res_totalCount = length items,
                   res_details = details s0\<rparr>)"
    and inv0: "loopInv pr paras ?ts items (plusOne (getMaxCommentId comments)) (length items) s0"
    by blast
  from run0 assms(1) have eq: "s = s0"
    "r = \<lparr>res_mergedCount = mergedCount s0, res_totalCount = length items,
          res_details = details s0\<rparr>"
    by simp_all
  from eq have r: "res_details r = details s" by simp
  from inv0 eq(1) have inv: "loopInv pr paras ?ts items (plusOne (getMaxCommentId comments)) (length items) s"
    by simp
  from inv have dist: "distinct (map ?f (details s))"
    unfolding loopInv_def by blast
  from inv have idx: "map index (details s) =
       filter (\<lambda>j. 0 \<le> matchedParagraph pr paras ?ts (items ! j)) [0 ..< length items]"
    unfolding loopInv_def by blast
  from assms(2,3) r have jk: "j < length (map ?f (details s))" "k < length (map ?f (details s))"
    by simp_all
  from dist have "\<forall>i<length (map ?f (details s)). \<forall>j<length (map ?f (details s)).
      i \<noteq> j \<longrightarrow> map ?f (details s) ! i \<noteq> map ?f (details s) ! j"
    by (simp only: distinct_conv_nth)
  with jk assms(4) have "map ?f (details s) ! j \<noteq> map ?f (details s) ! k"
    by blast
  with jk assms(5) r have ne: "anchorNodeIndex (res_details r ! j) \<noteq> anchorNodeIndex (res_details r ! k)"
    by simp
  have bound: "index (details s ! n) < length items" if "n < length (details s)" for n
  proof -
    from that have "index (details s ! n) = map index (details s) ! n" by simp
    also have "\<dots> \<in> set (map index (details s))" using that by (intro nth_mem) simp
    finally show ?thesis unfolding idx by simp
  qed
  have pr: "\<forall>used a. probe used a \<notin> set used \<and> a \<le> probe used a \<and>
            (\<forall>x. a \<le> x \<and> x < probe used a \<longrightarrow> x \<in> set used)"
    using probe_fresh probe_least by blast
  have bj: "index (res_details r ! j) < length items" using bound [of j] assms(2) r by simp
  have bk: "index (res_details r ! k) < length items" using bound [of k] assms(3) r by simp
  from ne bj bk pr show ?thesis by (intro conjI)
qed

theorem anchor_indices_differ_witness:
  "\<exists>s r. mergeRun toLowerCaseUnit exactRatio (js ''now'') [foxParagraph] sampleComments
            [Some foxItem, Some foxItem] = Inr (s, r) \<and>
     length (res_details r) = 2 \<and>
     matchedParagraph exactRatio [foxParagraph] (map getParagraphText [foxParagraph])
       ([Some foxItem, Some foxItem] ! index (res_details r ! 0)) =
     matchedParagraph exactRatio [foxParagraph] (map getParagraphText [foxParagraph])
       ([Some foxItem, Some foxItem] ! index (res_details r ! 1)) \<and>
     anchorNodeIndex (res_details r ! 0) \<noteq> anchorNodeIndex (res_details r ! 1)"
proof -
  let ?items = "[Some foxItem, Some foxItem]"
  from mergeRun_inv [of toLowerCaseUnit exactRatio "js ''now''" "[foxParagraph]" sampleComments ?items]
  obtain s where
    run: "mergeRun toLowerCaseUnit exactRatio (js ''now'') [foxParagraph] sampleComments ?items =
         Inr (s, \<lparr>res_mergedCount = mergedCount s, res_totalCount = length ?items,
                  res_details = details s\<rparr>)"
    and inv: "loopInv exactRatio [foxParagraph] (map getParagraphText [foxParagraph]) ?items
         (plusOne (getMaxCommentId sampleComments)) (length ?items) s"
    by blast
  let ?r = "\<lparr>res_mergedCount = mergedCount s, res_totalCount = length ?items,
                  res_details = details s\<rparr>"
  from inv have "map index (details s) =
      filter (\<lambda>j. 0 \<le> matchedParagraph exactRatio [foxParagraph]
                       (map getParagraphText [foxParagraph]) (?items ! j)) [0 ..< length ?items]"
    unfolding loopInv_def by blast
  then have idx: "map index (details s) = [0, 1]"
    by (simp add: foxText upt_rec mp_fox)
  have "length (map index (details s)) = 2" by (simp add: idx)
  then have len: "length (details s) = 2" by simp
  have "map index (details s) ! 0 = 0" "map index (details s) ! 1 = 1"
    by (simp_all add: idx)
  with len have i0: "index (details s ! 0) = 0" and i1: "index (details s ! 1) = 1"
    by simp_all
  have same: "matchedParagraph exactRatio [foxParagraph] (map getParagraphText [foxParagraph])
       (?items ! index (res_details ?r ! 0)) =
     matchedParagraph exactRatio [foxParagraph] (map getParagraphText [foxParagraph])
       (?items ! index (res_details ?r ! 1))"
    by (simp only: mergeResult.select_convs i0 i1) simp
  have l0: "0 < length (res_details ?r)" and l1: "1 < length (res_details ?r)"
    using len by simp_all
  have ne: "(0::nat) \<noteq> 1" by simp
  from anchor_indices_differ [OF run l0 l1 ne same]
  have d: "anchorNodeIndex (res_details ?r ! 0) \<noteq> anchorNodeIndex (res_details ?r ! 1)"
    by (rule conjunct1)
  have len': "length (res_details ?r) = 2" using len by simp
  show ?thesis
    by (rule exI [of _ s], rule exI [of _ ?r]) (intro conjI run len' same d)
qed

section \<open>Comment ids\<close>


lemma maxCommentIdStep_ge: "m \<le> maxCommentIdStep m e"
  by (simp add: maxCommentIdStep_def split: option.splits)

lemma foldl_maxCommentIdStep_ge: "m \<le> foldl maxCommentIdStep m es"
proof (induction es arbitrary: m)
  case Nil
  then show ?case by simp
next
  case (Cons e es)
  have "m \<le> maxCommentIdStep m e" by (rule maxCommentIdStep_ge)
  also have "\<dots> \<le> foldl maxCommentIdStep (maxCommentIdStep m e) es" by (rule Cons.IH)
  finally show ?case by simp
qed

lemma foldl_maxCommentIdStep_bound:
  "e \<in> set es \<Longrightarrow> commentIdOf e = Some c \<Longrightarrow> c \<le> foldl maxCommentIdStep m es"
proof (induction es arbitrary: m)
  case Nil
  then show ?case by simp
next
  case (Cons x es)
  show ?case
  proof (cases "e = x")
    case True
    with Cons.prems(2) have "c \<le> maxCommentIdStep m x"
      by (simp add: maxCommentIdStep_def)
    also have "\<dots> \<le> foldl maxCommentIdStep (maxCommentIdStep m x) es"
      by (rule foldl_maxCommentIdStep_ge)
    finally show ?thesis by simp
  next
    case False
    with Cons.prems have "e \<in> set es" by simp
    from Cons.IH [OF this Cons.prems(2)] show ?thesis by simp
  qed
qed

lemma foldl_maxCommentIdStep_mem:
  "foldl maxCommentIdStep m es = m \<or>
   (\<exists>e \<in> set es. commentIdOf e = Some (foldl maxCommentIdStep m es) \<and>
      m < foldl maxCommentIdStep m es)"
proof (induction es arbitrary: m)
  case Nil
  then show ?case by simp
next
  case (Cons x es)
  let ?m' = "maxCommentIdStep m x"
  have step: "?m' = m \<or> (commentIdOf x = Some ?m' \<and> m < ?m')"
    by (auto simp: maxCommentIdStep_def split: option.splits)
  have ge: "m \<le> ?m'" by (rule maxCommentIdStep_ge)
  from Cons.IH [of ?m'] show ?case
  proof
    assume "foldl maxCommentIdStep ?m' es = ?m'"
    with step show ?thesis by auto
  next
    assume "\<exists>e \<in> set es. commentIdOf e = Some (foldl maxCommentIdStep ?m' es) \<and>
      ?m' < foldl maxCommentIdStep ?m' es"
    with ge show ?thesis by auto
  qed
qed

lemma getMaxCommentId_nonneg: "0 \<le> getMaxCommentId doc"
  unfolding getMaxCommentId_def by (rule foldl_maxCommentIdStep_ge)

lemma commentIds_elements:
  "Some c \<in> set (commentIds doc) \<longleftrightarrow>
     (\<exists>e \<in> set (getElementsByTagNameNS doc W_NS ''comment''). commentIdExact e = Some c)"
  by (force simp: commentIds_def commentIdsIn_def getElementsByTagNameNS_def image_iff)

text \<open>An id below \<open>2^53\<close> is read without rounding, so that the maximum is an upper bound of
  these ids; and when every id is below \<open>2^53\<close>, the maximum is one of them, or 0.\<close>

lemma getMaxCommentId_bound:
  assumes "Some c \<in> set (commentIds doc)" "c < 2 ^ 53"
  shows "c \<le> getMaxCommentId doc"
proof (cases "c < 0")
  case True
  with getMaxCommentId_nonneg [of doc] show ?thesis by simp
next
  case False
  from assms(1) obtain e where e: "e \<in> set (getElementsByTagNameNS doc W_NS ''comment'')"
    "commentIdExact e = Some c"
    unfolding commentIds_elements by blast
  from False assms(2) have "\<bar>c\<bar> \<le> 2 ^ 53" by simp
  with e(2) have "commentIdOf e = Some c"
    unfolding commentIdExact_def commentIdOf_def by (rule parseInt_exact)
  with e(1) show ?thesis
    unfolding getMaxCommentId_def by (rule foldl_maxCommentIdStep_bound)
qed

lemma getMaxCommentId_mem:
  assumes "\<forall>c. Some c \<in> set (commentIds doc) \<longrightarrow> c < 2 ^ 53"
  shows "getMaxCommentId doc = 0 \<or> Some (getMaxCommentId doc) \<in> set (commentIds doc)"
proof -
  let ?es = "getElementsByTagNameNS doc W_NS ''comment''"
  from foldl_maxCommentIdStep_mem [of 0 ?es]
  show ?thesis
  proof
    assume "foldl maxCommentIdStep 0 ?es = 0"
    then show ?thesis by (simp add: getMaxCommentId_def)
  next
    assume "\<exists>e \<in> set ?es. commentIdOf e = Some (foldl maxCommentIdStep 0 ?es) \<and>
      0 < foldl maxCommentIdStep 0 ?es"
    then obtain e where e: "e \<in> set ?es" "commentIdOf e = Some (getMaxCommentId doc)"
      "0 < getMaxCommentId doc"
      unfolding getMaxCommentId_def by blast
    from e(2) obtain c where c: "commentIdExact e = Some c"
      unfolding commentIdOf_def commentIdExact_def parseInt_def
      by (cases "decimalValue (commentIdString e)") simp_all
    with e(1) have mem: "Some c \<in> set (commentIds doc)"
      unfolding commentIds_elements by blast
    with assms have lt: "c < 2 ^ 53" by blast
    have "c = getMaxCommentId doc"
    proof (cases "c < 0")
      case True
      from c True e(2) have "getMaxCommentId doc \<le> 0"
        unfolding commentIdOf_def commentIdExact_def by (rule parseInt_negative)
      with e(3) show ?thesis by simp
    next
      case False
      with lt have "\<bar>c\<bar> \<le> 2 ^ 53" by simp
      with c have "commentIdOf e = Some c"
        unfolding commentIdExact_def commentIdOf_def by (rule parseInt_exact)
      with e(2) show ?thesis by simp
    qed
    with mem show ?thesis by simp
  qed
qed

lemma commentIdsIn_append: "commentIdsIn (xs @ ys) = commentIdsIn xs @ commentIdsIn ys"
  by (simp add: commentIdsIn_def)

lemma commentIdExact_shallow:
  "commentIdExact (Element ns p l a cs) = commentIdExact (Element ns p l a [])"
  by (simp add: commentIdExact_def commentIdString_def getAttributeNS_def getAttribute_def
      cong: option.case_cong)

lemma commentIdsIn_element:
  "commentIdsIn (Element ns p l a cs # xs) =
     (if ns = W_NS \<and> l = ''comment'' then [commentIdExact (Element ns p l a [])] else []) @
     commentIdsIn xs"
  by (simp add: commentIdsIn_def commentIdExact_shallow [of _ _ _ _ cs])

lemma appendToFirst_ids:
  "(appendToFirst P new n = Some n' \<longrightarrow>
      isElement n' \<and>
      mset (commentIdsIn (subtreeElements n')) =
        mset (commentIdsIn (subtreeElements n)) + mset (commentIdsIn (subtreeElements new)))"
  "(appendToFirstIn P new cs = Some cs' \<longrightarrow>
      mset (commentIdsIn (concat (map subtreeElements cs'))) =
        mset (commentIdsIn (concat (map subtreeElements cs))) +
        mset (commentIdsIn (subtreeElements new)))"
proof (induction P new n and P new cs arbitrary: n' and cs'
    rule: appendToFirst_appendToFirstIn.induct)
  case (1 P new ns p l a cs)
  show ?case
  proof (cases "P (Element ns p l a cs)")
    case True
    then show ?thesis
      by (auto simp: commentIdsIn_element commentIdsIn_append)
  next
    case False
    show ?thesis
    proof
      assume "appendToFirst P new (Element ns p l a cs) = Some n'"
      with False obtain cs' where cs': "appendToFirstIn P new cs = Some cs'"
        "n' = Element ns p l a cs'" by auto
      from "1.IH" [OF False, of cs'] cs'(1) have
        "mset (commentIdsIn (concat (map subtreeElements cs'))) =
          mset (commentIdsIn (concat (map subtreeElements cs))) +
          mset (commentIdsIn (subtreeElements new))" by simp
      then show "isElement n' \<and>
        mset (commentIdsIn (subtreeElements n')) =
          mset (commentIdsIn (subtreeElements (Element ns p l a cs))) +
          mset (commentIdsIn (subtreeElements new))"
        by (simp add: cs'(2) commentIdsIn_element)
    qed
  qed
next
  case (2 P new s)
  then show ?case by simp
next
  case (3 P new)
  then show ?case by simp
next
  case (4 P new)
  then show ?case by simp
next
  case (5 P new c cs)
  show ?case
  proof
    assume a: "appendToFirstIn P new (c # cs) = Some cs'"
    show "mset (commentIdsIn (concat (map subtreeElements cs'))) =
        mset (commentIdsIn (concat (map subtreeElements (c # cs)))) +
        mset (commentIdsIn (subtreeElements new))"
    proof (cases "appendToFirst P new c")
      case None
      with a obtain r where r: "appendToFirstIn P new cs = Some r" "cs' = c # r" by auto
      from "5.IH"(2) [OF None, of r] r(1) have
        "mset (commentIdsIn (concat (map subtreeElements r))) =
          mset (commentIdsIn (concat (map subtreeElements cs))) +
          mset (commentIdsIn (subtreeElements new))" by simp
      then show ?thesis by (simp add: r(2) commentIdsIn_append)
    next
      case (Some c')
      with a have cs': "cs' = c' # cs" by simp
      from "5.IH"(1) [of c'] Some have
        "mset (commentIdsIn (subtreeElements c')) =
          mset (commentIdsIn (subtreeElements c)) + mset (commentIdsIn (subtreeElements new))"
        by simp
      then show ?thesis by (simp add: cs' commentIdsIn_append)
    qed
  qed
qed

lemma createComment_ids:
  "commentIdsIn (subtreeElements (createComment n a d t)) = [decimalValue (String_of_int n)]"
  by (cases "t = []")
     (simp_all add: createComment_def commentIdsIn_def commentIdExact_def commentIdString_def
        getAttributeNS_def)

lemma addNativeComment_ids:
  assumes "isElement doc"
  shows "isElement (addNativeComment doc n a d t) \<and>
         mset (commentIds (addNativeComment doc n a d t)) =
           mset (commentIds doc) + {#decimalValue (String_of_int n)#}"
proof (cases "appendToFirst (\<lambda>e. namespaceURI e = W_NS \<and> localName e = ''comments'')
                (createComment n a d t) doc")
  case None
  from assms(1) obtain ns p l at cs where doc: "doc = Element ns p l at cs"
    by (cases doc) auto
  from None show ?thesis
    using createComment_ids [of n a d t]
    by (simp add: addNativeComment_def Let_def doc appendChild_def commentIds_def
        commentIdsIn_element commentIdsIn_append)
next
  case (Some d')
  from appendToFirst_ids(1) [of _ "createComment n a d t" doc d'] Some
  have "isElement d'" "mset (commentIdsIn (subtreeElements d')) =
      mset (commentIdsIn (subtreeElements doc)) +
      mset (commentIdsIn (subtreeElements (createComment n a d t)))"
    by simp_all
  with Some show ?thesis
    using createComment_ids [of n a d t]
    by (simp add: addNativeComment_def Let_def commentIds_def)
qed


lemma mergeStep_comments:
  assumes inv: "loopInv pr paras ts items f i s"
    and cinv: "commentsInv comments f s"
  shows "\<exists>s'. mergeStep lc pr now ts s i (items ! i) = Inr s' \<and>
           loopInv pr paras ts items f (Suc i) s' \<and> commentsInv comments f s'"
proof -
  from mergeStep_inv [OF inv, of lc now] obtain s' where
    st: "mergeStep lc pr now ts s i (items ! i) = Inr s'"
    and inv': "loopInv pr paras ts items f (Suc i) s'" by blast
  have "commentsInv comments f s'"
  proof (cases "matchedParagraph pr (paragraphs s) ts (items ! i) < 0")
    case True
    from mergeStep_skip [OF True, of lc now i] st have "s' = s" by simp
    with cinv show ?thesis by simp
  next
    case False
    then have m: "0 \<le> matchedParagraph pr (paragraphs s) ts (items ! i)" by simp
    from mergeStep_merged [OF m, of lc now i] st obtain d a t where
      cd: "commentsDoc s' = addNativeComment (commentsDoc s) (nextCommentId s) a now t"
      and dt: "details s' = details s @ [d]"
      by auto
    from inv have nxt: "nextCommentId s = (plusOne ^^ length (details s)) f"
      unfolding loopInv_def by blast
    from cinv have el: "isElement (commentsDoc s)"
      and ids: "mset (commentIds (commentsDoc s)) =
        mset (commentIds comments) +
        mset (map (\<lambda>k. decimalValue (String_of_int ((plusOne ^^ k) f)))
               [0 ..< length (details s)])"
      unfolding commentsInv_def by blast+
    from addNativeComment_ids [OF el, of "nextCommentId s" a now t] have
      el': "isElement (commentsDoc s')"
      and ids': "mset (commentIds (commentsDoc s')) =
         mset (commentIds (commentsDoc s)) +
         {#decimalValue (String_of_int (nextCommentId s))#}"
      by (simp_all add: cd)
    have "mset (commentIds (commentsDoc s')) =
        mset (commentIds comments) +
        mset (map (\<lambda>k. decimalValue (String_of_int ((plusOne ^^ k) f)))
               [0 ..< length (details s')])"
      by (simp add: ids' ids dt nxt)
    with el' show ?thesis unfolding commentsInv_def by blast
  qed
  with st inv' show ?thesis by blast
qed

lemma mergeLoop_comments:
  assumes "its = drop i items" "i \<le> length items" "loopInv pr paras ts items f i s"
    "commentsInv comments f s"
  shows "\<exists>s'. mergeLoop lc pr now ts its i s = Inr s' \<and>
           loopInv pr paras ts items f (length items) s' \<and> commentsInv comments f s'"
  using assms
proof (induction its arbitrary: i s)
  case Nil
  then have "i = length items" by simp
  with Nil.prems(3,4) show ?case by simp
next
  case (Cons it its)
  from Cons.prems(1) have i: "i < length items"
    by (metis drop_all list.distinct(1) not_le)
  from Cons.prems(1) i have it: "it = items ! i" and rest: "its = drop (Suc i) items"
    by (simp_all add: Cons_nth_drop_Suc [symmetric])
  from i have i': "Suc i \<le> length items" by simp
  from mergeStep_comments [OF Cons.prems(3,4), of lc now] obtain s1 where
    s1: "mergeStep lc pr now ts s i (items ! i) = Inr s1"
      "loopInv pr paras ts items f (Suc i) s1" "commentsInv comments f s1" by blast
  from Cons.IH [OF rest i' s1(2,3)] obtain s' where
    "mergeLoop lc pr now ts its (Suc i) s1 = Inr s'"
    "loopInv pr paras ts items f (length items) s'" "commentsInv comments f s'" by blast
  with s1(1) it show ?case by simp
qed

lemma mergeRun_comments:
  assumes "isElement comments"
  shows "\<exists>s. mergeRun lc pr now paras comments items =
         Inr (s, \<lparr>res_mergedCount = mergedCount s, res_totalCount = length items,
                  res_details = details s\<rparr>) \<and>
       loopInv pr paras (map getParagraphText paras) items (plusOne (getMaxCommentId comments))
         (length items) s \<and>
       commentsInv comments (plusOne (getMaxCommentId comments)) s"
proof -
  have d: "items = drop 0 items" by simp
  have c0: "commentsInv comments (plusOne (getMaxCommentId comments))
      (initialState paras comments)"
    using assms by (simp add: commentsInv_def initialState_def)
  from mergeLoop_comments [OF d _ initialState_inv c0, of lc pr now "map getParagraphText paras"]
  obtain s where
    "mergeLoop lc pr now (map getParagraphText paras) items 0 (initialState paras comments) = Inr s"
    "loopInv pr paras (map getParagraphText paras) items (plusOne (getMaxCommentId comments))
       (length items) s"
    "commentsInv comments (plusOne (getMaxCommentId comments)) s"
    by auto
  then show ?thesis by (simp add: mergeRun_def Let_def)
qed

lemma two_fox_details:
  assumes "loopInv exactRatio [foxParagraph] (map getParagraphText [foxParagraph])
     [Some foxItem, Some foxItem] f (length [Some foxItem, Some foxItem]) s"
  shows "length (details s) = 2" "mergedCount s = 2"
proof -
  let ?items = "[Some foxItem, Some foxItem]"
  from assms have "map index (details s) =
      filter (\<lambda>j. 0 \<le> matchedParagraph exactRatio [foxParagraph]
                       (map getParagraphText [foxParagraph]) (?items ! j)) [0 ..< length ?items]"
    and cnt: "mergedCount s = length (details s)"
    unfolding loopInv_def by blast+
  then have idx: "map index (details s) = [0, 1]"
    by (simp add: foxText upt_rec mp_fox)
  have "length (map index (details s)) = 2" by (simp add: idx)
  then show "length (details s) = 2" by simp
  with cnt show "mergedCount s = 2" by simp
qed

lemma bigComments_ids: "commentIds bigComments = [Some 9007199254740992]"
  by (simp add: commentIds_def commentIdsIn_def bigComments_def commentIdExact_def
      sampleComments_string decimalValue_53)

lemma bigComments_max: "getMaxCommentId bigComments = 9007199254740992"
  by (simp add: getMaxCommentId_def getElementsByTagNameNS_def bigComments_def
      maxCommentIdStep_def commentIdOf_def sampleComments_string parseInt_53)

text \<open>
  Claim C2, at a comments part whose only comment has the id \<open>9007199254740992\<close> (\<open>2^53\<close>) and
  a run that merges two records. The maximum read is \<open>2^53\<close>; one more is not a double, so
  the counter starts at \<open>2^53\<close> and stays there when it is incremented. Both new comments get
  the id \<open>9007199254740992\<close>: not greater than the existing id, and not distinct.
\<close>

theorem new_comment_ids_collide:
  "commentIds bigComments = [Some 9007199254740992] \<and>
   getMaxCommentId bigComments = 9007199254740992 \<and>
   nextCommentId (initialState [foxParagraph] bigComments) = 9007199254740992 \<and>
   (\<exists>s r. mergeRun toLowerCaseUnit exactRatio (js ''now'') [foxParagraph] bigComments
            [Some foxItem, Some foxItem] = Inr (s, r) \<and>
      res_mergedCount r = 2 \<and>
      mset (commentIds (commentsDoc s)) =
        {#Some 9007199254740992, Some 9007199254740992, Some 9007199254740992#} \<and>
      nextCommentId s = 9007199254740992)"
proof -
  let ?items = "[Some foxItem, Some foxItem]"
  have el: "isElement bigComments" by (simp add: bigComments_def)
  have first: "plusOne (getMaxCommentId bigComments) = 9007199254740992"
    by (simp add: bigComments_max plusOne_stall)
  from mergeRun_comments [OF el, of toLowerCaseUnit exactRatio "js ''now''" "[foxParagraph]" ?items]
  obtain s where
    run: "mergeRun toLowerCaseUnit exactRatio (js ''now'') [foxParagraph] bigComments ?items =
         Inr (s, \<lparr>res_mergedCount = mergedCount s, res_totalCount = length ?items,
                  res_details = details s\<rparr>)"
    and inv: "loopInv exactRatio [foxParagraph] (map getParagraphText [foxParagraph]) ?items
         (plusOne (getMaxCommentId bigComments)) (length ?items) s"
    and cinv: "commentsInv bigComments (plusOne (getMaxCommentId bigComments)) s"
    by blast
  let ?r = "\<lparr>res_mergedCount = mergedCount s, res_totalCount = length ?items,
                  res_details = details s\<rparr>"
  note len = two_fox_details [OF inv]
  from inv have "nextCommentId s = (plusOne ^^ length (details s)) (plusOne (getMaxCommentId bigComments))"
    unfolding loopInv_def by blast
  then have nxt: "nextCommentId s = 9007199254740992"
    by (simp only: first funpow_plusOne_stall)
  from cinv have "mset (commentIds (commentsDoc s)) =
      mset (commentIds bigComments) +
      mset (map (\<lambda>k. decimalValue (String_of_int ((plusOne ^^ k) (plusOne (getMaxCommentId bigComments)))))
             [0 ..< length (details s)])"
    unfolding commentsInv_def by blast
  then have ids: "mset (commentIds (commentsDoc s)) =
        {#Some 9007199254740992, Some 9007199254740992, Some 9007199254740992#}"
    by (simp only: first funpow_plusOne_stall String_of_int_53 decimalValue_53 bigComments_ids
        len) (simp add: upt_rec numeral_2_eq_2)
  have a: "nextCommentId (initialState [foxParagraph] bigComments) = 9007199254740992"
    by (simp add: initialState_def first)
  have mc: "res_mergedCount ?r = 2" using len by simp
  have "\<exists>s r. mergeRun toLowerCaseUnit exactRatio (js ''now'') [foxParagraph] bigComments
            ?items = Inr (s, r) \<and>
      res_mergedCount r = 2 \<and>
      mset (commentIds (commentsDoc s)) =
        {#Some 9007199254740992, Some 9007199254740992, Some 9007199254740992#} \<and>
      nextCommentId s = 9007199254740992"
    by (rule exI [of _ s], rule exI [of _ ?r]) (intro conjI run mc ids nxt)
  with bigComments_ids bigComments_max a show ?thesis by (intro conjI)
qed

text \<open>
  Claim C2, amended. Let every id of the comments part be below \<open>2^53\<close>, and the maximum
  that \<open>getMaxCommentId\<close> reads, plus the number of merged records, be below \<open>2^53\<close>. That
  maximum is 0 or one of the ids, and no id exceeds it. The counter starts at one more than
  the maximum, computed once in the initial state, and after the run it has advanced by
  \<open>mergedCount\<close>. The ids of the comments in the final document are those of the initial
  document together with \<open>max + 1, ..., max + mergedCount\<close>, one for each merged record. Each
  of these is greater than every id the initial document had, and they are pairwise distinct.
\<close>

theorem new_comment_ids_fresh:
  assumes "isElement comments"
    and "\<forall>c. Some c \<in> set (commentIds comments) \<longrightarrow> c < 2 ^ 53"
    and "mergeRun lc pr nowIso paras comments items = Inr (s, r)"
    and "getMaxCommentId comments + int (res_mergedCount r) < 2 ^ 53"
  shows "(getMaxCommentId comments = 0 \<or>
          Some (getMaxCommentId comments) \<in> set (commentIds comments)) \<and>
         nextCommentId (initialState paras comments) = getMaxCommentId comments + 1 \<and>
         nextCommentId s = getMaxCommentId comments + 1 + int (res_mergedCount r) \<and>
         mset (commentIds (commentsDoc s)) =
           mset (commentIds comments) +
           mset (map (\<lambda>k. Some (getMaxCommentId comments + 1 + int k)) [0 ..< res_mergedCount r]) \<and>
         (\<forall>c k. Some c \<in> set (commentIds comments) \<longrightarrow>
                c < getMaxCommentId comments + 1 + int k) \<and>
         distinct (map (\<lambda>k. getMaxCommentId comments + 1 + int k) [0 ..< res_mergedCount r])"
proof -
  let ?m = "getMaxCommentId comments"
  have m0: "0 \<le> ?m" by (rule getMaxCommentId_nonneg)
  from assms(4) have mlt: "?m < 2 ^ 53" by simp
  from m0 mlt have first: "plusOne ?m = ?m + 1" by (rule plusOne_exact)
  from mergeRun_comments [OF assms(1), of lc pr nowIso paras items] obtain s0 where
    run0: "mergeRun lc pr nowIso paras comments items =
         Inr (s0, \<lparr>res_mergedCount = mergedCount s0, res_totalCount = length items,
                   res_details = details s0\<rparr>)"
    and inv: "loopInv pr paras (map getParagraphText paras) items (plusOne ?m) (length items) s0"
    and cinv: "commentsInv comments (plusOne ?m) s0"
    by blast
  from run0 assms(3) have eq: "s = s0" "res_mergedCount r = mergedCount s0" by simp_all
  from inv have cnt: "mergedCount s0 = length (details s0)"
    and nxt0: "nextCommentId s0 = (plusOne ^^ length (details s0)) (plusOne ?m)"
    unfolding loopInv_def by blast+
  from assms(4) eq(2) cnt have bound: "?m + int (length (details s0)) < 2 ^ 53" by simp
  have pow: "(plusOne ^^ k) (?m + 1) = ?m + 1 + int k" if "k \<le> length (details s0)" for k
  proof (rule funpow_plusOne)
    show "0 \<le> ?m + 1" using m0 by simp
    from that bound show "?m + 1 + int k \<le> 2 ^ 53" by simp
  qed
  have str: "decimalValue (String_of_int (?m + 1 + int k)) = Some (?m + 1 + int k)"
    if "k < length (details s0)" for k
  proof (rule decimalValue_String_of_int)
    show "0 \<le> ?m + 1 + int k" using m0 by simp
    from that bound show "?m + 1 + int k < 2 ^ 53" by simp
  qed
  have nxt: "nextCommentId s0 = ?m + 1 + int (length (details s0))"
    by (simp only: nxt0 first pow [OF order_refl])
  from cinv have ids0: "mset (commentIds (commentsDoc s0)) =
      mset (commentIds comments) +
      mset (map (\<lambda>k. decimalValue (String_of_int ((plusOne ^^ k) (plusOne ?m))))
             [0 ..< length (details s0)])"
    unfolding commentsInv_def by blast
  have "map (\<lambda>k. decimalValue (String_of_int ((plusOne ^^ k) (plusOne ?m))))
             [0 ..< length (details s0)] =
        map (\<lambda>k. Some (?m + 1 + int k)) [0 ..< length (details s0)]"
  proof (rule map_cong [OF refl])
    fix k assume "k \<in> set [0 ..< length (details s0)]"
    then have k: "k < length (details s0)" by simp
    then have "k \<le> length (details s0)" by simp
    from pow [OF this] str [OF k]
    show "decimalValue (String_of_int ((plusOne ^^ k) (plusOne ?m))) = Some (?m + 1 + int k)"
      by (simp only: first)
  qed
  with ids0 have ids: "mset (commentIds (commentsDoc s0)) =
      mset (commentIds comments) +
      mset (map (\<lambda>k. Some (?m + 1 + int k)) [0 ..< length (details s0)])"
    by simp
  have z: "?m = 0 \<or> Some ?m \<in> set (commentIds comments)"
    using assms(2) by (rule getMaxCommentId_mem)
  have a: "nextCommentId (initialState paras comments) = ?m + 1"
    by (simp add: initialState_def first)
  have b: "nextCommentId s = ?m + 1 + int (res_mergedCount r)"
    using nxt cnt eq by simp
  have c: "mset (commentIds (commentsDoc s)) =
           mset (commentIds comments) +
           mset (map (\<lambda>k. Some (?m + 1 + int k)) [0 ..< res_mergedCount r])"
    using ids cnt eq by simp
  have d: "\<forall>c k. Some c \<in> set (commentIds comments) \<longrightarrow> c < ?m + 1 + int k"
  proof (intro allI impI)
    fix c k assume c: "Some c \<in> set (commentIds comments)"
    with assms(2) have "c < 2 ^ 53" by blast
    with c have "c \<le> ?m" by (rule getMaxCommentId_bound)
    then show "c < ?m + 1 + int k" by simp
  qed
  have e: "distinct (map (\<lambda>k. ?m + 1 + int k) [0 ..< res_mergedCount r])"
    by (simp add: distinct_map inj_on_def)
  from z a b c d e show ?thesis by (intro conjI)
qed

theorem new_comment_ids_fresh_witness:
  "isElement sampleComments \<and>
   commentIds sampleComments = [Some 3] \<and>
   getMaxCommentId sampleComments = 3 \<and>
   (\<exists>s r. mergeRun toLowerCaseUnit exactRatio (js ''now'') [foxParagraph] sampleComments
            [Some foxItem, Some foxItem] = Inr (s, r) \<and>
      res_mergedCount r = 2 \<and>
      mset (commentIds (commentsDoc s)) = {#Some 3, Some 4, Some 5#} \<and>
      nextCommentId s = 6)"
proof -
  let ?items = "[Some foxItem, Some foxItem]"
  have el: "isElement sampleComments" by (simp add: sampleComments_def)
  have h2: "\<forall>c. Some c \<in> set (commentIds sampleComments) \<longrightarrow> c < 2 ^ 53"
    by (simp add: sampleComments_ids)
  from mergeRun_inv [of toLowerCaseUnit exactRatio "js ''now''" "[foxParagraph]" sampleComments ?items]
  obtain s where
    run: "mergeRun toLowerCaseUnit exactRatio (js ''now'') [foxParagraph] sampleComments ?items =
         Inr (s, \<lparr>res_mergedCount = mergedCount s, res_totalCount = length ?items,
                  res_details = details s\<rparr>)"
    and inv: "loopInv exactRatio [foxParagraph] (map getParagraphText [foxParagraph]) ?items
         (plusOne (getMaxCommentId sampleComments)) (length ?items) s"
    by blast
  let ?r = "\<lparr>res_mergedCount = mergedCount s, res_totalCount = length ?items,
                  res_details = details s\<rparr>"
  from two_fox_details(2) [OF inv] have mc: "res_mergedCount ?r = 2" by simp
  have h3: "getMaxCommentId sampleComments + int (res_mergedCount ?r) < 2 ^ 53"
    by (simp only: mc sampleComments_max) simp
  note t = new_comment_ids_fresh [OF el h2 run h3, unfolded mc sampleComments_max sampleComments_ids]
  from t have i: "mset (commentIds (commentsDoc s)) = {#Some 3, Some 4, Some 5#}"
    by (simp add: upt_rec numeral_2_eq_2)
  from t have n: "nextCommentId s = 6" by simp
  have "\<exists>s r. mergeRun toLowerCaseUnit exactRatio (js ''now'') [foxParagraph] sampleComments
            ?items = Inr (s, r) \<and>
      res_mergedCount r = 2 \<and>
      mset (commentIds (commentsDoc s)) = {#Some 3, Some 4, Some 5#} \<and>
      nextCommentId s = 6"
    by (rule exI [of _ s], rule exI [of _ ?r]) (intro conjI run mc i n)
  with el sampleComments_ids sampleComments_max show ?thesis by (intro conjI)
qed

section \<open>Start method and approximate start\<close>


lemma dotText: "getParagraphText dotParagraph = [304, 304, 120]"
  by (simp add: getParagraphText_def dotParagraph_def descendantElements_def textContribution_def)

lemma dot_norm_para:
  "normalizeForFuzzyIndexing toLowerCaseUnit [304, 304, 120] = ([105, 775, 105, 775, 120], [0, 1, 2])"
  by (simp add: normalizeForFuzzyIndexing_def isSpace_def foldQuotes_def toLowerCaseUnit_def trim_def)

lemma dot_norm_anchor: "normalizeForFuzzySearch toLowerCaseUnit [120] = [120]"
  by (simp add: normalizeForFuzzySearch_def normalizeForFuzzyIndexing_def isSpace_def
      foldQuotes_def toLowerCaseUnit_def trim_def)

lemma dot_indexOf: "indexOf [105, 775, 105, 775, 120] [120] = Some 4"
  by (simp add: indexOf_def upt_rec)

lemma dot_locate: "locateStart toLowerCaseUnit pr [304, 304, 120] [120] = (SM_substring, None)"
  by (simp add: locateStart_def findApproxMatchStartIndex_def dot_norm_para dot_norm_anchor
      includesStr_def dot_indexOf nthOrNull_def)

lemma mp_dot: "matchedParagraph exactRatio [dotParagraph] [[304, 304, 120]] (Some dotItem) = 0"
proof -
  have c: "cleanAnchorText [120] = [120]"
    by (simp add: cleanAnchorText_def isSpace_def trim_def)
  have t: "trim [304, 304, 120] \<noteq> []" by (simp add: trim_def isSpace_def)
  have i: "indexOf [304, 304, 120] [120] = Some 2" by (simp add: indexOf_def upt_rec)
  show ?thesis
    by (simp add: matchedParagraph_def anchorOf_def dotItem_def findBestParagraphMatch_def c
        bestMatchStep_def nthOrNull_def t scoreMatch_def exactRatio_def includesStr_def i Let_def)
qed

text \<open>
  Claim C4, at a paragraph with the text U+0130 U+0130 \<open>x\<close> and a record anchored at
  \<open>x\<close>. The normalised paragraph has five code units, because U+0130 lower-cases to two,
  and its index map has three entries. The normalised anchor occurs in the normalised
  paragraph, at position 4, so the first search succeeds and the start method is
  \<open>substring\<close>; the index map has no entry 4, and the approximate start recorded for the
  merged record is null.
\<close>

theorem substring_without_offset:
  "includesStr (fst (normalizeForFuzzyIndexing toLowerCaseUnit (getParagraphText dotParagraph)))
     (normalizeForFuzzySearch toLowerCaseUnit (anchorOf (Some dotItem))) \<and>
   (\<exists>s r. mergeRun toLowerCaseUnit exactRatio (js ''now'') [dotParagraph] sampleComments
            [Some dotItem] = Inr (s, r) \<and>
      res_mergedCount r = 1 \<and>
      map startMethod (res_details r) = [SM_substring] \<and>
      map approxStart (res_details r) = [None])"
proof -
  let ?s0 = "initialState [dotParagraph] sampleComments"
  have inc: "includesStr (fst (normalizeForFuzzyIndexing toLowerCaseUnit (getParagraphText dotParagraph)))
     (normalizeForFuzzySearch toLowerCaseUnit (anchorOf (Some dotItem)))"
    by (simp add: dotText dot_norm_para anchorOf_def dotItem_def dot_norm_anchor includesStr_def
        dot_indexOf)
  have m: "0 \<le> matchedParagraph exactRatio (paragraphs ?s0) [[304, 304, 120]] (Some dotItem)"
    by (simp add: initialState_def mp_dot)
  have mp0: "nat (matchedParagraph exactRatio (paragraphs ?s0) [[304, 304, 120]] (Some dotItem)) = 0"
    by (simp add: initialState_def mp_dot)
  from mergeStep_merged [OF m, of toLowerCaseUnit "js ''now''" 0, unfolded mp0]
  obtain p' d cd where
    st: "mergeStep toLowerCaseUnit exactRatio (js ''now'') [[304, 304, 120]] ?s0 0 (Some dotItem) =
       Inr \<lparr>paragraphs = (paragraphs ?s0)[0 := p'], commentsDoc = cd,
            nextCommentId = plusOne (nextCommentId ?s0), mergedCount = mergedCount ?s0 + 1,
            details = details ?s0 @ [d],
            usedAnchorIndicesByParagraph =
              (usedAnchorIndicesByParagraph ?s0)(0 \<mapsto> usedOf ?s0 0 @ [anchorNodeIndex d])\<rparr>"
    and loc: "(startMethod d, approxStart d) =
        locateStart toLowerCaseUnit exactRatio
          (case nthOrNull [[304, 304, 120]] 0 of None \<Rightarrow> [] | Some t \<Rightarrow> t)
          (anchorOf (Some dotItem))"
    by blast
  from loc have sm: "startMethod d = SM_substring" and ap: "approxStart d = None"
    by (simp_all add: nthOrNull_def anchorOf_def dotItem_def dot_locate)
  let ?s1 = "\<lparr>paragraphs = (paragraphs ?s0)[0 := p'], commentsDoc = cd,
            nextCommentId = plusOne (nextCommentId ?s0), mergedCount = mergedCount ?s0 + 1,
            details = details ?s0 @ [d],
            usedAnchorIndicesByParagraph =
              (usedAnchorIndicesByParagraph ?s0)(0 \<mapsto> usedOf ?s0 0 @ [anchorNodeIndex d])\<rparr>"
  let ?r = "\<lparr>res_mergedCount = mergedCount ?s1, res_totalCount = length [Some dotItem],
          res_details = details ?s1\<rparr>"
  from st have run: "mergeRun toLowerCaseUnit exactRatio (js ''now'') [dotParagraph] sampleComments
            [Some dotItem] = Inr (?s1, ?r)"
    by (simp add: mergeRun_def dotText Let_def)
  have r1: "res_mergedCount ?r = 1" by (simp add: initialState_def)
  have r2: "map startMethod (res_details ?r) = [SM_substring]"
    by (simp add: initialState_def sm)
  have r3: "map approxStart (res_details ?r) = [None]"
    by (simp add: initialState_def ap)
  have "\<exists>s r. mergeRun toLowerCaseUnit exactRatio (js ''now'') [dotParagraph] sampleComments
            [Some dotItem] = Inr (s, r) \<and>
      res_mergedCount r = 1 \<and>
      map startMethod (res_details r) = [SM_substring] \<and>
      map approxStart (res_details r) = [None]"
    by (rule exI [of _ ?s1], rule exI [of _ ?r]) (intro conjI run r1 r2 r3)
  with inc show ?thesis by (rule conjI)
qed

subsection \<open>Texts that keep the index map aligned\<close>




lemma noDoubleSpace_snoc:
  "noDoubleSpace (xs @ [d]) \<longleftrightarrow> noDoubleSpace xs \<and> (xs \<noteq> [] \<and> last xs = 32 \<longrightarrow> d \<noteq> 32)"
  by (induction xs rule: noDoubleSpace.induct) auto

lemma noDoubleSpace_rev: "noDoubleSpace (rev xs) = noDoubleSpace xs"
proof (induction xs rule: noDoubleSpace.induct)
  case (1 a b r)
  have "noDoubleSpace (rev (a # b # r)) = noDoubleSpace ((rev r @ [b]) @ [a])" by simp
  also have "\<dots> = (noDoubleSpace (rev r @ [b]) \<and> \<not> (b = 32 \<and> a = 32))"
    by (subst noDoubleSpace_snoc) auto
  also have "\<dots> = (noDoubleSpace (rev (b # r)) \<and> \<not> (a = 32 \<and> b = 32))" by auto
  finally show ?case using "1.IH" by auto
qed simp_all

lemma noDoubleSpace_tl: "noDoubleSpace (a # xs) \<Longrightarrow> noDoubleSpace xs"
  by (cases xs) simp_all

lemma noDoubleSpace_dropWhile: "noDoubleSpace xs \<Longrightarrow> noDoubleSpace (dropWhile P xs)"
  by (induction xs) (auto dest: noDoubleSpace_tl)

lemma noDoubleSpace_take: "noDoubleSpace xs \<Longrightarrow> noDoubleSpace (take n xs)"
proof (induction xs arbitrary: n rule: noDoubleSpace.induct)
  case (1 a b r)
  show ?case
  proof (cases n)
    case 0 then show ?thesis by simp
  next
    case (Suc m)
    from "1.prems" have ab: "\<not> (a = 32 \<and> b = 32)" and r: "noDoubleSpace (b # r)" by simp_all
    from "1.IH" [OF r, of m] have t: "noDoubleSpace (take m (b # r))" .
    show ?thesis
    proof (cases m)
      case 0 with Suc show ?thesis by simp
    next
      case (Suc k)
      with t ab \<open>n = Suc m\<close> show ?thesis by simp
    qed
  qed
next
  case (2 a)
  show ?case by (cases n) simp_all
next
  case 3
  show ?case by simp
qed

lemma tidy_dropWhile: "tidy xs \<Longrightarrow> tidy (dropWhile P xs)"
  by (auto simp: tidy_def noDoubleSpace_dropWhile dest: set_dropWhileD)

lemma tidy_rev: "tidy (rev xs) = tidy xs"
  by (simp add: tidy_def noDoubleSpace_rev)

lemma tidy_take: "tidy xs \<Longrightarrow> tidy (take n xs)"
  by (auto simp: tidy_def noDoubleSpace_take dest: in_set_takeD)

lemma tidy_trim: "tidy xs \<Longrightarrow> tidy (trim xs)"
  by (simp add: trim_def tidy_rev tidy_dropWhile)

lemma trim_ends:
  "trim xs = [] \<or> (\<not> isSpace (hd (trim xs)) \<and> \<not> isSpace (last (trim xs)))"
proof (cases "trim xs = []")
  case True then show ?thesis by simp
next
  case False
  let ?a = "dropWhile isSpace xs"
  let ?b = "dropWhile isSpace (rev ?a)"
  from False have "rev ?b \<noteq> []" unfolding trim_def .
  then have b: "?b \<noteq> []" by (metis rev.simps(1))
  then have "\<not> isSpace (hd ?b)" by (rule hd_dropWhile)
  then have l: "\<not> isSpace (last (trim xs))"
    using b by (simp add: trim_def last_rev)
  have a: "?a \<noteq> []"
  proof
    assume e: "?a = []"
    have "?b = []" unfolding e by simp
    with b show False by blast
  qed
  then have ha: "\<not> isSpace (hd ?a)" by (rule hd_dropWhile)
  have "last ?b = last (rev ?a)"
  proof -
    obtain us where "rev ?a = us @ ?b"
      by (metis takeWhile_dropWhile_id)
    with b show ?thesis by (metis last_appendR)
  qed
  then have "last ?b = hd ?a" using a by (simp add: last_rev)
  then have "hd (trim xs) = hd ?a" using b by (simp add: trim_def hd_rev)
  with ha l show ?thesis by simp
qed

lemma trim_id:
  assumes "xs \<noteq> []" "\<not> isSpace (hd xs)" "\<not> isSpace (last xs)"
  shows "trim xs = xs"
proof -
  from assms(1,2) have a: "dropWhile isSpace xs = xs" by (cases xs) simp_all
  from assms(1) have r: "rev xs \<noteq> []" by simp
  from assms(1,3) have "\<not> isSpace (hd (rev xs))" by (simp add: hd_rev)
  with r have "dropWhile isSpace (rev xs) = rev xs" by (cases "rev xs") simp_all
  with a show ?thesis by (simp add: trim_def)
qed


lemma length_trim_le: "length (trim xs) \<le> length xs"
proof -
  have "length (trim xs) = length (dropWhile isSpace (rev (dropWhile isSpace xs)))"
    by (simp add: trim_def)
  also have "\<dots> \<le> length (rev (dropWhile isSpace xs))" by (rule length_dropWhile_le)
  also have "\<dots> \<le> length xs" by (simp add: length_dropWhile_le)
  finally show ?thesis .
qed

lemma isSpace_32: "isSpace 32"
  by (simp add: isSpace_def)

lemma normalizeLoop_aligned:
  assumes "unitLowerOn lc str" "length n2o = length nm" "tidy nm"
    "lws \<longleftrightarrow> nm \<noteq> [] \<and> last nm = 32"
  shows "length (fst (snd (normalizeLoop lc str i (nm, n2o, lws)))) =
           length (fst (normalizeLoop lc str i (nm, n2o, lws))) \<and>
         tidy (fst (normalizeLoop lc str i (nm, n2o, lws)))"
  using assms
proof (induction str arbitrary: i nm n2o lws)
  case Nil
  then show ?case by simp
next
  case (Cons raw rest)
  from Cons.prems(1) have rest: "unitLowerOn lc rest" by (simp add: unitLowerOn_def)
  show ?case
  proof (cases "isSpace raw")
    case True
    show ?thesis
    proof (cases lws)
      case True
      with \<open>isSpace raw\<close> Cons.IH [OF rest Cons.prems(2,3,4), of "i + 1"] show ?thesis
        by simp
    next
      case False
      with Cons.prems(4) have nl: "\<not> (nm \<noteq> [] \<and> last nm = 32)" by simp
      have t: "tidy (nm @ [32])"
        using Cons.prems(3) nl by (auto simp: tidy_def noDoubleSpace_snoc)
      have l: "length (n2o @ [i]) = length (nm @ [32])" using Cons.prems(2) by simp
      have w: "True \<longleftrightarrow> nm @ [32] \<noteq> [] \<and> last (nm @ [32]) = 32" by simp
      from Cons.IH [OF rest l t w, of "i + 1"] False \<open>isSpace raw\<close> show ?thesis by simp
    qed
  next
    case False
    with Cons.prems(1) obtain d where d: "lc (foldQuotes raw) = [d]" "\<not> isSpace d"
      by (auto simp: unitLowerOn_def)
    from d(2) have d32: "d \<noteq> 32" using isSpace_32 by auto
    have t: "tidy (nm @ [d])"
      using Cons.prems(3) d(2) d32 by (auto simp: tidy_def noDoubleSpace_snoc)
    have l: "length (n2o @ [i]) = length (nm @ [d])" using Cons.prems(2) by simp
    have w: "False \<longleftrightarrow> nm @ [d] \<noteq> [] \<and> last (nm @ [d]) = 32" using d32 by simp
    from Cons.IH [OF rest l t w, of "i + 1"] False d(1) show ?thesis by simp
  qed
qed

lemma normalize_aligned:
  assumes "unitLowerOn lc str"
  shows "length (fst (normalizeForFuzzyIndexing lc str))
           \<le> length (snd (normalizeForFuzzyIndexing lc str)) \<and>
         tidy (fst (normalizeForFuzzyIndexing lc str))"
proof -
  obtain nm n2o lws where r: "normalizeLoop lc str 0 ([], [], False) = (nm, n2o, lws)"
    by (cases "normalizeLoop lc str 0 ([], [], False)") auto
  have t0: "tidy []" by (simp add: tidy_def)
  from normalizeLoop_aligned [OF assms _ t0, of "[]" False 0] r
  have "length n2o = length nm" "tidy nm" by simp_all
  with r length_trim_le [of nm] show ?thesis
    by (simp add: normalizeForFuzzyIndexing_def tidy_trim)
qed

lemma two_elements: "2 \<le> length xs \<Longrightarrow> \<exists>a b r. xs = a # b # r"
  by (cases xs; cases "tl xs") auto

lemma dropWhile_last_space:
  assumes "tidy v" "2 \<le> length v"
  shows "length v \<le> Suc (length (dropWhile isSpace v))"
proof -
  from two_elements [OF assms(2)] obtain a b r where v: "v = a # b # r" by blast
  show ?thesis
  proof (cases "isSpace a")
    case False
    with v show ?thesis by simp
  next
    case True
    with assms(1) v have a: "a = 32" by (simp add: tidy_def)
    with assms(1) v have "b \<noteq> 32" by (simp add: tidy_def)
    with assms(1) v have "\<not> isSpace b" by (auto simp: tidy_def)
    with True v show ?thesis by simp
  qed
qed

lemma prefix_length:
  assumes "tidy t" "t \<noteq> []" "\<not> isSpace (hd t)" "\<not> isSpace (last t)"
  shows "(length t \<le> 80 \<longrightarrow> trim (take 80 t) = t) \<and>
         (80 < length t \<longrightarrow> 79 \<le> length (trim (take 80 t)))"
proof (intro conjI impI)
  assume "length t \<le> 80"
  then have "take 80 t = t" by simp
  with trim_id [OF assms(2,3,4)] show "trim (take 80 t) = t" by simp
next
  assume long: "80 < length t"
  define u where "u = take 80 t"
  have lu: "length u = 80" using long by (simp add: u_def)
  then have une: "u \<noteq> []" by auto
  have "hd u = hd t" using assms(2) by (cases t) (simp_all add: u_def)
  with assms(3) une have du: "dropWhile isSpace u = u" by (cases u) simp_all
  have tv: "tidy (rev u)" using assms(1) by (simp add: tidy_rev tidy_take u_def)
  have lv: "2 \<le> length (rev u)" using lu by simp
  from dropWhile_last_space [OF tv lv] lu
  have "79 \<le> length (dropWhile isSpace (rev u))" by simp
  then have "79 \<le> length (trim u)" by (simp add: trim_def du)
  then show "79 \<le> length (trim (take 80 t))" by (simp add: u_def)
qed

lemma indexOf_bound:
  assumes "indexOf s n = Some i" "n \<noteq> []"
  shows "i < length s"
proof (rule ccontr)
  assume "\<not> i < length s"
  then have "drop i s = []" by simp
  moreover from assms(1) have "take (length n) (drop i s) = n"
    by (auto simp: indexOf_def find_Some_iff)
  ultimately show False using assms(2) by simp
qed

lemma scan_accept_bound:
  assumes "scanLoop pr (scanNeedleOf a) para (windowLenOf (scanNeedleOf a)) 0 0 (- 1) = (bs, bp)"
    "0 \<le> bp"
  shows "nat bp < length para"
proof -
  have wl: "0 < windowLenOf (scanNeedleOf a)" by (simp add: windowLenOf_def)
  have z: "(0::nat) mod 5 = 0" by simp
  from scanLoop_post [OF wl z scanInv_start assms(1)] assms(2)
  have "isScanPosition para (nat bp)" by auto
  then show ?thesis by (simp add: isScanPosition_def)
qed

lemma fuzzyScan_aligned:
  assumes "length para \<le> length n2o"
  shows "fuzzyScan pr a para n2o =
     (case scanLoop pr (scanNeedleOf a) para (windowLenOf (scanNeedleOf a)) 0 0 (- 1) of
        (bs, bp) \<Rightarrow> if 0 \<le> bp \<and> 60 \<le> bs then Some (n2o ! nat bp) else None)"
proof -
  obtain bs bp where r:
    "scanLoop pr (scanNeedleOf a) para (windowLenOf (scanNeedleOf a)) 0 0 (- 1) = (bs, bp)"
    by (cases "scanLoop pr (scanNeedleOf a) para (windowLenOf (scanNeedleOf a)) 0 0 (- 1)") auto
  show ?thesis
  proof (cases "0 \<le> bp \<and> 60 \<le> bs")
    case True
    with scan_accept_bound [OF r] assms have "nat bp < length n2o" by simp
    with True r show ?thesis by (simp add: fuzzyScan_def Let_def nthOrNull_def)
  next
    case False
    with r show ?thesis by (auto simp: fuzzyScan_def Let_def)
  qed
qed


text \<open>
  Where every character that is not whitespace lower-cases to one code unit, in the paragraph
  and in the anchor, the index map covers the normalised paragraph and the three searches
  decide the outcome in order: the normalised anchor found in the normalised paragraph gives
  \<open>substring\<close>; otherwise its trimmed first 80 characters, when at least 12 long and found,
  give \<open>prefix\<close>; otherwise an accepted window of the scan gives \<open>fuzzy\<close>; each comes with
  the index-map entry of the position found. Only when all three fail is the start method
  \<open>none\<close> and the start null.
\<close>

lemma locateStart_aligned:
  assumes para: "unitLowerOn lc paraText" and anc: "unitLowerOn lc anchor"
    and ne: "normalizeForFuzzySearch lc anchor \<noteq> []"
  shows "locateStart lc pr paraText anchor =
    (let normPara = fst (normalizeForFuzzyIndexing lc paraText);
         normToOrig = snd (normalizeForFuzzyIndexing lc paraText);
         normAnchor = normalizeForFuzzySearch lc anchor;
         prefix = trim (take 80 normAnchor)
     in case indexOf normPara normAnchor of
          Some i \<Rightarrow> (SM_substring, Some (normToOrig ! i))
        | None \<Rightarrow>
            (case (if 12 \<le> length prefix then indexOf normPara prefix else None) of
               Some i \<Rightarrow> (SM_prefix, Some (normToOrig ! i))
             | None \<Rightarrow>
                 (case scanLoop pr (scanNeedleOf normAnchor) normPara
                         (windowLenOf (scanNeedleOf normAnchor)) 0 0 (- 1) of
                    (bs, bp) \<Rightarrow>
                      if 0 \<le> bp \<and> 60 \<le> bs then (SM_fuzzy, Some (normToOrig ! nat bp))
                      else (SM_none, None))))"
proof -
  obtain np n2o where pn: "normalizeForFuzzyIndexing lc paraText = (np, n2o)"
    by (cases "normalizeForFuzzyIndexing lc paraText") auto
  define na where "na = normalizeForFuzzySearch lc anchor"
  define px where "px = trim (take 80 na)"
  from normalize_aligned [OF para] pn have len: "length np \<le> length n2o" by simp
  from normalize_aligned [OF anc] have tna: "tidy na"
    by (simp add: na_def normalizeForFuzzySearch_def)
  have "na = trim (fst (normalizeLoop lc anchor 0 ([], [], False)))"
    by (simp add: na_def normalizeForFuzzySearch_def normalizeForFuzzyIndexing_def
        split: prod.splits)
  with trim_ends [of "fst (normalizeLoop lc anchor 0 ([], [], False))"] ne
  have ends: "\<not> isSpace (hd na)" "\<not> isSpace (last na)" and nane: "na \<noteq> []"
    by (simp_all add: na_def)
  note pl = prefix_length [OF tna nane ends, folded px_def]
  obtain bs bp where sc:
    "scanLoop pr (scanNeedleOf na) np (windowLenOf (scanNeedleOf na)) 0 0 (- 1) = (bs, bp)"
    by (cases "scanLoop pr (scanNeedleOf na) np (windowLenOf (scanNeedleOf na)) 0 0 (- 1)") auto
  note fz = fuzzyScan_aligned [OF len, of pr na, unfolded sc, simplified]
  have goal: "locateStart lc pr paraText anchor =
      (case indexOf np na of
          Some i \<Rightarrow> (SM_substring, Some (n2o ! i))
        | None \<Rightarrow>
            (case (if 12 \<le> length px then indexOf np px else None) of
               Some i \<Rightarrow> (SM_prefix, Some (n2o ! i))
             | None \<Rightarrow>
                 if 0 \<le> bp \<and> 60 \<le> bs then (SM_fuzzy, Some (n2o ! nat bp))
                 else (SM_none, None)))"
  proof (cases "indexOf np na")
    case (Some i)
    with indexOf_bound [OF Some nane] len have "i < length n2o" by simp
    with Some nane show ?thesis
      by (simp add: locateStart_def findApproxMatchStartIndex_def pn na_def [symmetric]
          includesStr_def nthOrNull_def)
  next
    case None
    show ?thesis
    proof (cases "length na \<le> 80")
      case True
      with pl have px: "px = na" by simp
      with None nane fz show ?thesis
        by (simp add: locateStart_def findApproxMatchStartIndex_def pn na_def [symmetric]
            px_def [symmetric] includesStr_def Let_def)
    next
      case False
      with pl have l: "79 \<le> length px" by simp
      then have l12: "12 \<le> length px" and pxne: "px \<noteq> []" by auto
      show ?thesis
      proof (cases "indexOf np px")
        case inone: None
        with None nane l12 pxne fz show ?thesis
          by (simp add: locateStart_def findApproxMatchStartIndex_def pn na_def [symmetric]
              px_def [symmetric] includesStr_def Let_def)
      next
        case (Some i)
        with indexOf_bound [OF Some pxne] len have "i < length n2o" by simp
        with Some None nane l12 pxne show ?thesis
          by (simp add: locateStart_def findApproxMatchStartIndex_def pn na_def [symmetric]
              px_def [symmetric] includesStr_def Let_def nthOrNull_def)
      qed
    qed
  qed
  show ?thesis
    unfolding goal
    by (simp add: pn na_def [symmetric] px_def [symmetric] sc Let_def
        cong: option.case_cong if_cong)
qed

end
